theory Spec2Isabelle
  imports Main "HOL-Library.Word"
begin

unbundle bit_operations_syntax

section \<open>Data model\<close>

text \<open>
  The tool \<^verbatim>\<open>tools/strip_target_features.py\<close> reads a WebAssembly binary into a
  \<^verbatim>\<open>bytes\<close> object, walks its sections and writes the binary back without the custom
  sections named \<open>target_features\<close>. A \<^verbatim>\<open>bytes\<close> object is a list of 8-bit words;
  offsets, sizes and the values of varints are Python integers that never go negative here,
  hence natural numbers.
\<close>

type_synonym byte = "8 word"

text \<open>The exceptions the code can raise: \<^verbatim>\<open>data[i]\<close> out of range, and the
  \<^verbatim>\<open>assert\<close> on the magic number. Neither is caught, so either ends the run before the
  output file is opened.\<close>

datatype error = IndexError | AssertionError

text \<open>The lines printed to standard error: one per stripped section with its size in bytes,
  and the warning that no section was found.\<close>

datatype message = Stripped nat | NoSectionWarning

text \<open>The variables of the loop in \<^verbatim>\<open>main\<close>, with the lines printed so far.\<close>

record state =
  pos :: nat
  out :: "byte list"
  stripped :: bool
  err :: "message list"

text \<open>What a run that raises nothing leaves behind: the bytes written to the output
  file and the lines on standard error.\<close>

record result =
  out_file :: "byte list"
  stderr :: "message list"

text \<open>Python's \<^verbatim>\<open>xs[a:b]\<close> for \<open>0 \<le> a\<close> and \<open>0 \<le> b\<close>: both ends are clipped to
  the length of \<open>xs\<close>, and nothing is raised.\<close>

definition bytes_slice :: "'a list \<Rightarrow> nat \<Rightarrow> nat \<Rightarrow> 'a list" where
  "bytes_slice xs a b = drop a (take b xs)"

text \<open>The magic number the \<^verbatim>\<open>assert\<close> compares with: a zero byte and the letters
  \<open>asm\<close>.\<close>

definition magic :: "byte list" where
  "magic = [0x00, 0x61, 0x73, 0x6D]"

section \<open>The varint codec\<close>

text \<open>
  \<^verbatim>\<open>read_leb128(data, offset)\<close>: the body of its \<^verbatim>\<open>while True\<close> loop with the
  variables \<^verbatim>\<open>result\<close>, \<^verbatim>\<open>shift\<close> and \<^verbatim>\<open>i\<close>. \<^verbatim>\<open>data[i]\<close>
  raises \<open>IndexError\<close> when \<open>i\<close> is not below the length. The loop ends: \<open>i\<close> grows
  by one in every round and never passes the length.
\<close>

function read_leb128_loop :: "byte list \<Rightarrow> nat \<Rightarrow> nat \<Rightarrow> nat \<Rightarrow> error + (nat \<times> nat)" where
  "read_leb128_loop data result shift i =
     (if i < length data then
        (let byte = data ! i;
             result' = result OR push_bit shift (unat (byte AND 0x7F));
             i' = i + 1
         in if byte AND 0x80 = 0 then Inr (result', i')
            else read_leb128_loop data result' (shift + 7) i')
      else Inl IndexError)"
  by pat_completeness auto
termination
  by (relation "measure (\<lambda>(data, result, shift, i). length data - i)") auto

declare read_leb128_loop.simps [simp del]

definition read_leb128 :: "byte list \<Rightarrow> nat \<Rightarrow> error + (nat \<times> nat)" where
  "read_leb128 data offset =
     (case read_leb128_loop data 0 0 offset of
        Inl e \<Rightarrow> Inl e
      | Inr (result, i) \<Rightarrow> Inr (result, i - offset))"

section \<open>UTF-8 decoding with replacement\<close>

text \<open>
  The library call \<^verbatim>\<open>bytes.decode("utf-8", errors="replace")\<close>, on the numeric values of
  the bytes. One step decodes one well-formed sequence to its code point, or finds an error
  and tells how many bytes the error spans: the longest prefix of the sequence that could
  still start a well-formed one, at least one byte. The well-formed sequences are those of the
  Unicode standard: no overlong forms, no surrogates, nothing above U+10FFFF.
\<close>

definition is_continuation :: "nat \<Rightarrow> bool" where
  "is_continuation b = (0x80 \<le> b \<and> b < 0xC0)"

definition second_ok :: "nat \<Rightarrow> nat \<Rightarrow> bool" where
  "second_ok b0 b1 =
     (is_continuation b1 \<and>
      (if b0 = 0xE0 then 0xA0 \<le> b1
       else if b0 = 0xED then b1 < 0xA0
       else if b0 = 0xF0 then 0x90 \<le> b1
       else if b0 = 0xF4 then b1 < 0x90
       else True))"

fun utf8_decode_one :: "nat list \<Rightarrow> nat option \<times> nat" where
  "utf8_decode_one [] = (None, 0)"
| "utf8_decode_one (b0 # bs) =
     (if b0 < 0x80 then (Some b0, 1)
      else if b0 < 0xC2 then (None, 1)
      else if b0 < 0xE0 then
        (case bs of
           [] \<Rightarrow> (None, 1)
         | b1 # _ \<Rightarrow>
             if is_continuation b1 then (Some ((b0 mod 32) * 64 + b1 mod 64), 2)
             else (None, 1))
      else if b0 < 0xF0 then
        (case bs of
           [] \<Rightarrow> (None, 1)
         | [b1] \<Rightarrow> if second_ok b0 b1 then (None, 2) else (None, 1)
         | b1 # b2 # _ \<Rightarrow>
             if \<not> second_ok b0 b1 then (None, 1)
             else if \<not> is_continuation b2 then (None, 2)
             else (Some ((b0 mod 16) * 4096 + (b1 mod 64) * 64 + b2 mod 64), 3))
      else if b0 < 0xF5 then
        (case bs of
           [] \<Rightarrow> (None, 1)
         | [b1] \<Rightarrow> if second_ok b0 b1 then (None, 2) else (None, 1)
         | [b1, b2] \<Rightarrow>
             if \<not> second_ok b0 b1 then (None, 1)
             else if \<not> is_continuation b2 then (None, 2)
             else (None, 3)
         | b1 # b2 # b3 # _ \<Rightarrow>
             if \<not> second_ok b0 b1 then (None, 1)
             else if \<not> is_continuation b2 then (None, 2)
             else if \<not> is_continuation b3 then (None, 3)
             else (Some ((b0 mod 8) * 262144 + (b1 mod 64) * 4096 + (b2 mod 64) * 64 + b3 mod 64), 4))
      else (None, 1))"

lemma utf8_decode_one_consumed:
  "bs \<noteq> [] \<Longrightarrow> 1 \<le> snd (utf8_decode_one bs) \<and> snd (utf8_decode_one bs) \<le> length bs"
  by (cases bs) (auto split: list.splits)

text \<open>Decoding never raises: every error becomes the replacement character U+FFFD. A
  Python string is the list of its code points.\<close>

function utf8_decode_replace :: "nat list \<Rightarrow> nat list" where
  "utf8_decode_replace bs =
     (if bs = [] then []
      else (case utf8_decode_one bs of
              (Some cp, n) \<Rightarrow> cp # utf8_decode_replace (drop n bs)
            | (None, n) \<Rightarrow> 0xFFFD # utf8_decode_replace (drop n bs)))"
  by pat_completeness auto
termination
proof (relation "measure length")
  show "wf (measure length)" by simp
next
  fix bs :: "nat list" and x y cp
  assume "bs \<noteq> []" "(x, y) = utf8_decode_one bs"
  then show "(drop y bs, bs) \<in> measure length"
    using utf8_decode_one_consumed [of bs] by (cases "utf8_decode_one bs") auto
next
  fix bs :: "nat list" and x y
  assume "bs \<noteq> []" "(x, y) = utf8_decode_one bs"
  then show "(drop y bs, bs) \<in> measure length"
    using utf8_decode_one_consumed [of bs] by (cases "utf8_decode_one bs") auto
qed

declare utf8_decode_replace.simps [simp del]

text \<open>The byte strings that decode without any error.\<close>

function utf8_valid :: "nat list \<Rightarrow> bool" where
  "utf8_valid bs =
     (if bs = [] then True
      else (case utf8_decode_one bs of
              (Some cp, n) \<Rightarrow> utf8_valid (drop n bs)
            | (None, n) \<Rightarrow> False))"
  by pat_completeness auto
termination
proof (relation "measure length")
  show "wf (measure length)" by simp
next
  fix bs :: "nat list" and x y cp
  assume "bs \<noteq> []" "(x, y) = utf8_decode_one bs"
  then show "(drop y bs, bs) \<in> measure length"
    using utf8_decode_one_consumed [of bs] by (cases "utf8_decode_one bs") auto
qed

declare utf8_valid.simps [simp del]

text \<open>The string literal \<^verbatim>\<open>"target_features"\<close>.\<close>

definition target_features :: "nat list" where
  "target_features = map of_char ''target_features''"

section \<open>The strip pass\<close>

text \<open>
  One round of the \<^verbatim>\<open>while pos < len(data)\<close> loop of \<^verbatim>\<open>main\<close>. The section
  end is not compared with the length of the buffer, and the name is read from the payload
  start whatever the payload size is. \<^verbatim>\<open>data[pos]\<close> would raise outside the buffer; the
  loop condition rules that out.
\<close>

definition strip_step :: "byte list \<Rightarrow> state \<Rightarrow> error + state" where
  "strip_step data s =
     (if length data \<le> pos s then Inl IndexError
      else
        let section_start = pos s;
            section_id = data ! pos s;
            pos1 = pos s + 1
        in case read_leb128 data pos1 of
             Inl e \<Rightarrow> Inl e
           | Inr (section_size, leb_len) \<Rightarrow>
               let pos2 = pos1 + leb_len;
                   section_end = pos2 + section_size;
                   keep = s\<lparr>pos := section_end,
                            out := out s @ bytes_slice data section_start section_end\<rparr>
               in if section_id = 0 then
                    (case read_leb128 data pos2 of
                       Inl e \<Rightarrow> Inl e
                     | Inr (name_len, name_leb_len) \<Rightarrow>
                         let name_start = pos2 + name_leb_len;
                             name = utf8_decode_replace
                                      (map unat (bytes_slice data name_start (name_start + name_len)))
                         in if name = target_features
                            then Inr (s\<lparr>pos := section_end, stripped := True,
                                        err := err s @ [Stripped (section_end - section_start)]\<rparr>)
                            else Inr keep)
                  else Inr keep)"

lemma read_leb128_loop_bounds:
  "read_leb128_loop data r sh i = Inr (v, j) \<Longrightarrow> i < j \<and> j \<le> length data"
proof (induction data r sh i rule: read_leb128_loop.induct)
  case (1 data result shift i)
  show ?case
  proof (cases "i < length data")
    case False
    with "1.prems" show ?thesis by (simp add: read_leb128_loop.simps [of data result shift i])
  next
    case True
    show ?thesis
    proof (cases "data ! i AND 0x80 = 0")
      case t: True
      with True "1.prems" show ?thesis
        by (simp add: read_leb128_loop.simps [of data result shift i] Let_def)
    next
      case f: False
      with True "1.prems" have "read_leb128_loop data (result OR push_bit shift (unat (data ! i AND 0x7F))) (shift + 7) (i + 1) = Inr (v, j)"
        by (simp add: read_leb128_loop.simps [of data result shift i] Let_def)
      with "1.IH" [OF True refl refl refl f] show ?thesis by simp
    qed
  qed
qed

lemma read_leb128_bounds:
  "read_leb128 data off = Inr (v, n) \<Longrightarrow> 1 \<le> n \<and> off + n \<le> length data"
  by (auto simp: read_leb128_def split: sum.splits dest!: read_leb128_loop_bounds)

lemma strip_step_advances:
  "strip_step data s = Inr s' \<Longrightarrow> pos s < pos s'"
  by (auto simp: strip_step_def Let_def split: if_splits sum.splits prod.splits
           dest!: read_leb128_bounds)

text \<open>The loop itself. It ends because every round that does not fail moves the cursor
  forward.\<close>

function strip_loop :: "byte list \<Rightarrow> state \<Rightarrow> error + state" where
  "strip_loop data s =
     (if pos s < length data then
        (case strip_step data s of
           Inl e \<Rightarrow> Inl e
         | Inr s' \<Rightarrow> strip_loop data s')
      else Inr s)"
  by pat_completeness auto
termination
proof (relation "measure (\<lambda>(data, s). length data - pos s)")
  show "wf (measure (\<lambda>(data, s). length data - pos s))" by simp
next
  fix data :: "byte list" and s s' :: state
  assume "pos s < length data" "strip_step data s = Inr s'"
  then show "((data, s'), (data, s)) \<in> measure (\<lambda>(data, s). length data - pos s)"
    using strip_step_advances [of data s s'] by simp
qed

declare strip_loop.simps [simp del]

text \<open>
  \<^verbatim>\<open>main\<close>, as a function of the contents of the input file. \<open>Inl\<close> is a run ended by
  an exception, before \<^verbatim>\<open>open(sys.argv[2], "wb")\<close>: no output file is written. The
  check of the argument count and the file system are outside the model.
\<close>

definition main :: "byte list \<Rightarrow> error + result" where
  "main data =
     (if take 4 data \<noteq> magic then Inl AssertionError
      else (case strip_loop data \<lparr>pos = 8, out = take 8 data, stripped = False, err = []\<rparr> of
              Inl e \<Rightarrow> Inl e
            | Inr s \<Rightarrow>
                Inr \<lparr>out_file = out s,
                     stderr = (if stripped s then err s else err s @ [NoSectionWarning])\<rparr>))"

section \<open>The value of a varint\<close>

text \<open>
  The value of the bytes of a varint in the words of the specification: each byte contributes
  its low seven bits, shifted left by seven times its index, and the contributions are OR-ed
  together.
\<close>

definition leb_value :: "byte list \<Rightarrow> nat" where
  "leb_value bs =
     fold (\<lambda>k acc. acc OR push_bit (7 * k) (unat (bs ! k AND 0x7F))) [0..<length bs] 0"

text \<open>The accumulator of the loop after it has read the bytes \<open>bs\<close>, started with
  \<open>result = r\<close> and \<open>shift = sh\<close>.\<close>

fun leb_acc :: "nat \<Rightarrow> nat \<Rightarrow> byte list \<Rightarrow> nat" where
  "leb_acc r sh [] = r"
| "leb_acc r sh (b # bs) = leb_acc (r OR push_bit sh (unat (b AND 0x7F))) (sh + 7) bs"

lemma leb_acc_fold:
  "leb_acc r sh bs =
     fold (\<lambda>k acc. acc OR push_bit (sh + 7 * k) (unat (bs ! k AND 0x7F))) [0..<length bs] r"
proof (induction bs arbitrary: r sh)
  case Nil
  show ?case by simp
next
  case (Cons b bs)
  have upt: "[0..<length (b # bs)] = 0 # map Suc [0..<length bs]"
    by (simp add: upt_conv_Cons map_Suc_upt del: upt_Suc)
  show ?case
    unfolding upt by (simp add: Cons.IH fold_map comp_def add.assoc)
qed

lemma leb_acc_value: "leb_acc 0 0 bs = leb_value bs"
  by (simp add: leb_acc_fold leb_value_def)

lemma leb_acc_snoc:
  "leb_acc r sh (bs @ [b]) = leb_acc r sh bs OR push_bit (sh + 7 * length bs) (unat (b AND 0x7F))"
  by (induction bs arbitrary: r sh) (simp_all add: add.assoc add.commute add.left_commute)

section \<open>The decoding loop on a buffer split at the cursor\<close>

lemma read_leb128_loop_end:
  "length data \<le> i \<Longrightarrow> read_leb128_loop data r sh i = Inl IndexError"
  by (simp add: read_leb128_loop.simps [of data r sh i])

lemma read_leb128_loop_stop:
  "i < length data \<Longrightarrow> data ! i AND 0x80 = 0 \<Longrightarrow>
   read_leb128_loop data r sh i = Inr (r OR push_bit sh (unat (data ! i AND 0x7F)), Suc i)"
  by (simp add: read_leb128_loop.simps [of data r sh i])

lemma read_leb128_loop_cont:
  "i < length data \<Longrightarrow> data ! i AND 0x80 \<noteq> 0 \<Longrightarrow>
   read_leb128_loop data r sh i =
     read_leb128_loop data (r OR push_bit sh (unat (data ! i AND 0x7F))) (sh + 7) (Suc i)"
  by (simp add: read_leb128_loop.simps [of data r sh i])

lemma read_leb128_loop_run:
  assumes "\<forall>b \<in> set cs. b AND 0x80 \<noteq> 0" and "t AND 0x80 = 0"
  shows "read_leb128_loop (pre @ cs @ t # post) r sh (length pre) =
           Inr (leb_acc r sh (cs @ [t]), length pre + length cs + 1)"
  using assms(1)
proof (induction cs arbitrary: pre r sh)
  case Nil
  show ?case using assms(2) by (simp add: read_leb128_loop_stop)
next
  case (Cons c cs)
  have c: "c AND 0x80 \<noteq> 0" and cs: "\<forall>b \<in> set cs. b AND 0x80 \<noteq> 0"
    using Cons.prems by simp_all
  have "read_leb128_loop (pre @ (c # cs) @ t # post) r sh (length pre) =
        read_leb128_loop (pre @ (c # cs) @ t # post)
          (r OR push_bit sh (unat (c AND 0x7F))) (sh + 7) (Suc (length pre))"
    using c by (subst read_leb128_loop_cont) simp_all
  also have "\<dots> = read_leb128_loop ((pre @ [c]) @ cs @ t # post)
          (r OR push_bit sh (unat (c AND 0x7F))) (sh + 7) (length (pre @ [c]))"
    by simp
  also have "\<dots> = Inr (leb_acc (r OR push_bit sh (unat (c AND 0x7F))) (sh + 7) (cs @ [t]),
                       length (pre @ [c]) + length cs + 1)"
    by (rule Cons.IH [OF cs])
  finally show ?case by simp
qed

lemma read_leb128_loop_all_cont:
  assumes "\<forall>b \<in> set cs. b AND 0x80 \<noteq> 0"
  shows "read_leb128_loop (pre @ cs) r sh (length pre) = Inl IndexError"
  using assms
proof (induction cs arbitrary: pre r sh)
  case Nil
  show ?case by (simp add: read_leb128_loop_end)
next
  case (Cons c cs)
  have c: "c AND 0x80 \<noteq> 0" and cs: "\<forall>b \<in> set cs. b AND 0x80 \<noteq> 0"
    using Cons.prems by simp_all
  have "read_leb128_loop (pre @ c # cs) r sh (length pre) =
        read_leb128_loop (pre @ c # cs)
          (r OR push_bit sh (unat (c AND 0x7F))) (sh + 7) (Suc (length pre))"
    using c by (subst read_leb128_loop_cont) simp_all
  also have "\<dots> = read_leb128_loop ((pre @ [c]) @ cs)
          (r OR push_bit sh (unat (c AND 0x7F))) (sh + 7) (length (pre @ [c]))"
    by simp
  also have "\<dots> = Inl IndexError"
    by (rule Cons.IH [OF cs])
  finally show ?case .
qed

lemma read_leb128_run:
  assumes "\<forall>b \<in> set cs. b AND 0x80 \<noteq> 0" and "t AND 0x80 = 0"
  shows "read_leb128 (pre @ cs @ t # post) (length pre) = Inr (leb_value (cs @ [t]), length cs + 1)"
  by (simp add: read_leb128_def read_leb128_loop_run [OF assms] leb_acc_value)

lemma read_leb128_all_cont:
  assumes "\<forall>b \<in> set cs. b AND 0x80 \<noteq> 0"
  shows "read_leb128 (pre @ cs) (length pre) = Inl IndexError"
  by (simp add: read_leb128_def read_leb128_loop_all_cont [OF assms])

text \<open>Every buffer splits at an offset either into continuation bytes only, or into
  continuation bytes, a first terminator and a rest.\<close>

lemma split_at_terminator:
  fixes bs :: "byte list"
  shows "(\<forall>b \<in> set bs. b AND 0x80 \<noteq> 0) \<or>
         (\<exists>cs t post. bs = cs @ t # post \<and> (\<forall>b \<in> set cs. b AND 0x80 \<noteq> 0) \<and> t AND 0x80 = 0)"
proof (induction bs)
  case Nil
  show ?case by simp
next
  case (Cons b bs)
  show ?case
  proof (cases "b AND 0x80 = 0")
    case True
    then have "b # bs = [] @ b # bs \<and> (\<forall>x \<in> set []. x AND 0x80 \<noteq> (0::byte)) \<and> b AND 0x80 = 0"
      by simp
    then show ?thesis by blast
  next
    case False
    from Cons.IH show ?thesis
    proof
      assume "\<forall>x \<in> set bs. x AND 0x80 \<noteq> 0"
      with False show ?thesis by simp
    next
      assume "\<exists>cs t post. bs = cs @ t # post \<and> (\<forall>b \<in> set cs. b AND 0x80 \<noteq> 0) \<and> t AND 0x80 = 0"
      then obtain cs t post where "bs = cs @ t # post" "\<forall>b \<in> set cs. b AND 0x80 \<noteq> 0" "t AND 0x80 = 0"
        by blast
      with False have "b # bs = (b # cs) @ t # post \<and> (\<forall>x \<in> set (b # cs). x AND 0x80 \<noteq> 0) \<and> t AND 0x80 = 0"
        by simp
      then show ?thesis by blast
    qed
  qed
qed

section \<open>Terminated and unterminated varints\<close>

text \<open>A byte string in which every byte has its continuation bit set: a varint that starts
  there does not end inside it.\<close>

definition unterminated :: "byte list \<Rightarrow> bool" where
  "unterminated bs = list_all (\<lambda>b. b AND 0x80 \<noteq> 0) bs"

lemma unterminated_set: "unterminated bs \<longleftrightarrow> (\<forall>b \<in> set bs. b AND 0x80 \<noteq> 0)"
  by (simp add: unterminated_def list_all_iff)

lemma read_leb128_unterminated:
  assumes "unterminated (drop off data)"
  shows "read_leb128 data off = Inl IndexError"
proof (cases "off \<le> length data")
  case True
  have "read_leb128 (take off data @ drop off data) (length (take off data)) = Inl IndexError"
    using assms by (intro read_leb128_all_cont) (simp add: unterminated_set)
  with True show ?thesis by simp
next
  case False
  then show ?thesis by (simp add: read_leb128_def read_leb128_loop_end)
qed

lemma read_leb128_terminated:
  assumes "drop off data = cs @ t # post" and "unterminated cs" and "t AND 0x80 = 0"
  shows "read_leb128 data off = Inr (leb_value (cs @ [t]), length cs + 1)"
proof -
  have le: "off \<le> length data"
    using assms(1) by (cases "off \<le> length data") auto
  have "read_leb128 (take off data @ cs @ t # post) (length (take off data)) =
          Inr (leb_value (cs @ [t]), length cs + 1)"
    using assms(2,3) by (intro read_leb128_run) (simp_all add: unterminated_set)
  moreover have "take off data @ cs @ t # post = data"
    using assms(1) [symmetric] by simp
  ultimately show ?thesis using le by simp
qed

lemma read_leb128_cases:
  "(unterminated (drop off data) \<and> read_leb128 data off = Inl IndexError) \<or>
   (\<exists>cs t post. drop off data = cs @ t # post \<and> unterminated cs \<and> t AND 0x80 = 0 \<and>
      read_leb128 data off = Inr (leb_value (cs @ [t]), length cs + 1))"
proof -
  from split_at_terminator [of "drop off data"] show ?thesis
  proof
    assume "\<forall>b \<in> set (drop off data). b AND 0x80 \<noteq> 0"
    then have "unterminated (drop off data)" by (simp add: unterminated_set)
    with read_leb128_unterminated [of off data] show ?thesis by simp
  next
    assume "\<exists>cs t post. drop off data = cs @ t # post \<and> (\<forall>b \<in> set cs. b AND 0x80 \<noteq> 0) \<and>
      t AND 0x80 = 0"
    then obtain cs t post where d: "drop off data = cs @ t # post" "unterminated cs" "t AND 0x80 = 0"
      by (auto simp: unterminated_set)
    from read_leb128_terminated [OF d] d show ?thesis by blast
  qed
qed

lemma read_leb128_InrD:
  assumes "read_leb128 data off = Inr (v, n)"
  obtains cs t post where "drop off data = cs @ t # post" "unterminated cs" "t AND 0x80 = 0"
    "v = leb_value (cs @ [t])" "n = length cs + 1"
  using assms read_leb128_cases [of off data] by auto

lemma read_leb128_InlD: "read_leb128 data off = Inl e \<Longrightarrow> e = IndexError \<and> unterminated (drop off data)"
  using read_leb128_cases [of off data] by auto

lemma read_leb128_shift: "read_leb128 (xs @ ys) (length xs + k) = read_leb128 ys k"
  using read_leb128_cases [of k ys]
proof (elim disjE conjE exE)
  assume "unterminated (drop k ys)" "read_leb128 ys k = Inl IndexError"
  then show ?thesis by (simp add: read_leb128_unterminated)
next
  fix cs t post
  assume "drop k ys = cs @ t # post" "unterminated cs" "t AND 0x80 = 0"
    "read_leb128 ys k = Inr (leb_value (cs @ [t]), length cs + 1)"
  then show ?thesis by (simp add: read_leb128_terminated [where cs = cs and t = t and post = post])
qed

lemma read_leb128_extend:
  assumes "read_leb128 xs k = Inr (v, n)"
  shows "read_leb128 (xs @ ys) k = Inr (v, n)"
proof -
  from assms obtain cs t post where d: "drop k xs = cs @ t # post" "unterminated cs" "t AND 0x80 = 0"
    "v = leb_value (cs @ [t])" "n = length cs + 1"
    by (rule read_leb128_InrD)
  from d(1) have "k \<le> length xs" by (cases "k \<le> length xs") auto
  with d(1) have "drop k (xs @ ys) = cs @ t # (post @ ys)" by simp
  from read_leb128_terminated [OF this d(2,3)] d(4,5) show ?thesis by simp
qed

lemma read_leb128_restrict:
  assumes "read_leb128 (xs @ ys) k = Inr (v, n)" and "k + n \<le> length xs"
  shows "read_leb128 xs k = Inr (v, n)"
proof -
  from assms(1) obtain cs t post where d: "drop k (xs @ ys) = cs @ t # post" "unterminated cs"
    "t AND 0x80 = 0" "v = leb_value (cs @ [t])" "n = length cs + 1"
    by (rule read_leb128_InrD)
  from assms(2) d(5) have k: "k + length cs < length xs" by simp
  then have "drop k (xs @ ys) = drop k xs @ ys" by simp
  with d(1) have eq: "drop k xs @ ys = (cs @ [t]) @ post" by simp
  have len: "length (cs @ [t]) \<le> length (drop k xs)" using k by simp
  from eq len have "take (length (cs @ [t])) (drop k xs) = cs @ [t]"
    by (metis append_eq_conv_conj take_append diff_is_0_eq take_0 append_Nil2)
  then have "drop k xs = (cs @ [t]) @ drop (length (cs @ [t])) (drop k xs)"
    by (metis append_take_drop_id)
  then have "drop k xs = cs @ t # drop (length (cs @ [t])) (drop k xs)" by simp
  from read_leb128_terminated [OF this d(2,3)] d(4,5) show ?thesis by simp
qed

section \<open>Claims about the varint codec\<close>

lemma leb_acc_zero_run: "leb_acc 0 sh (replicate k 0x80) = 0"
  by (induction k arbitrary: sh) simp_all

lemma leb_value_run_one: "leb_value (replicate k 0x80 @ [0x01]) = 2 ^ (7 * k)"
proof -
  have "leb_value (replicate k 0x80 @ [0x01]) = leb_acc 0 0 (replicate k 0x80 @ [0x01])"
    by (simp add: leb_acc_value)
  also have "\<dots> = leb_acc 0 0 (replicate k 0x80) OR push_bit (0 + 7 * length (replicate k (0x80::byte))) (unat ((0x01::byte) AND 0x7F))"
    by (rule leb_acc_snoc)
  also have "\<dots> = 2 ^ (7 * k)"
    by (simp add: leb_acc_zero_run push_bit_eq_mult)
  finally show ?thesis .
qed

text \<open>
  Claim C5. Whenever a byte with a clear high bit occurs at or after \<open>off\<close> inside the
  buffer, \<open>read_leb128\<close> returns. The number \<open>n\<close> of bytes it consumed is at least 1, the
  last byte it read is the first one with a clear high bit (every earlier one has the bit set),
  and the value is \<open>leb_value\<close> of exactly the bytes read: the OR of each byte's low seven
  bits shifted left by seven times its index.
\<close>

theorem read_leb128_decodes:
  assumes "off \<le> j" and "j < length data" and "data ! j AND 0x80 = 0"
  shows "\<exists>n. read_leb128 data off = Inr (leb_value (bytes_slice data off (off + n)), n) \<and>
             1 \<le> n \<and> off + n \<le> j + 1 \<and>
             data ! (off + n - 1) AND 0x80 = 0 \<and>
             (\<forall>k. k < n - 1 \<longrightarrow> data ! (off + k) AND 0x80 \<noteq> 0)"
proof -
  have mem: "data ! j \<in> set (drop off data)"
  proof -
    have "drop off data ! (j - off) = data ! j" using assms(1,2) by simp
    moreover have "j - off < length (drop off data)" using assms(1,2) by simp
    ultimately show ?thesis by (metis nth_mem)
  qed
  with assms(3) have "\<not> unterminated (drop off data)"
    by (auto simp: unterminated_set)
  with read_leb128_cases [of off data]
  obtain cs t post where d: "drop off data = cs @ t # post" "unterminated cs" "t AND 0x80 = 0"
    "read_leb128 data off = Inr (leb_value (cs @ [t]), length cs + 1)"
    by blast
  let ?n = "length cs + 1"
  have nth: "\<And>k. k \<le> length cs \<Longrightarrow> data ! (off + k) = (cs @ [t]) ! k"
  proof -
    fix k assume k: "k \<le> length cs"
    have "length (drop off data) = length (cs @ t # post)" by (simp only: d(1))
    then have "length data - off = length cs + Suc (length post)" by simp
    with k have "off + k < length data" by arith
    then have "data ! (off + k) = drop off data ! k" by simp
    also have "\<dots> = (cs @ t # post) ! k" by (simp add: d(1))
    also have "\<dots> = (cs @ [t]) ! k" using k by (simp add: nth_append)
    finally show "data ! (off + k) = (cs @ [t]) ! k" .
  qed
  have slice: "bytes_slice data off (off + ?n) = cs @ [t]"
  proof -
    have "bytes_slice data off (off + ?n) = take ?n (drop off data)"
      by (simp add: bytes_slice_def drop_take)
    also have "\<dots> = cs @ [t]" by (simp add: d(1))
    finally show ?thesis .
  qed
  have last: "data ! (off + ?n - 1) AND 0x80 = 0"
    using nth [of "length cs"] d(3) by simp
  have conts: "\<forall>k. k < ?n - 1 \<longrightarrow> data ! (off + k) AND 0x80 \<noteq> 0"
  proof (intro allI impI)
    fix k assume "k < ?n - 1"
    then have k: "k < length cs" by simp
    then have "data ! (off + k) = cs ! k" using nth [of k] by (simp add: nth_append)
    moreover have "cs ! k \<in> set cs" using k by simp
    ultimately show "data ! (off + k) AND 0x80 \<noteq> 0" using d(2) by (simp add: unterminated_set)
  qed
  have first: "off + ?n \<le> j + 1"
  proof (rule ccontr)
    assume "\<not> off + ?n \<le> j + 1"
    then have "j - off < ?n - 1" using assms(1) by simp
    with conts have "data ! (off + (j - off)) AND 0x80 \<noteq> 0" by blast
    with assms(1,3) show False by simp
  qed
  from d(4) slice last conts first show ?thesis
    by (intro exI [of _ ?n]) simp
qed

theorem read_leb128_decodes_witness:
  "(0::nat) \<le> 2 \<and> 2 < length [0xE5, 0x8E, 0x26 :: byte] \<and> [0xE5, 0x8E, 0x26 :: byte] ! 2 AND 0x80 = 0 \<and>
   (\<exists>n. read_leb128 [0xE5, 0x8E, 0x26] 0 = Inr (leb_value (bytes_slice [0xE5, 0x8E, 0x26] 0 (0 + n)), n) \<and>
             1 \<le> n \<and> 0 + n \<le> 2 + 1 \<and> [0xE5, 0x8E, 0x26 :: byte] ! (0 + n - 1) AND 0x80 = 0) \<and>
   read_leb128 [0xE5, 0x8E, 0x26] 0 = Inr (624485, 3)"
proof -
  have h: "(0::nat) \<le> 2" "2 < length [0xE5, 0x8E, 0x26 :: byte]" "[0xE5, 0x8E, 0x26 :: byte] ! 2 AND 0x80 = 0"
    by simp_all
  from read_leb128_decodes [OF h]
  have "\<exists>n. read_leb128 [0xE5, 0x8E, 0x26] 0 = Inr (leb_value (bytes_slice [0xE5, 0x8E, 0x26] 0 (0 + n)), n) \<and>
             1 \<le> n \<and> 0 + n \<le> 2 + 1 \<and> [0xE5, 0x8E, 0x26 :: byte] ! (0 + n - 1) AND 0x80 = 0"
    by blast
  moreover have "read_leb128 [0xE5, 0x8E, 0x26] 0 = Inr (624485, 3)"
    by (simp add: read_leb128_def read_leb128_loop.simps)
  ultimately show ?thesis using h by blast
qed

text \<open>
  Claim C4 (amended). \<open>read_leb128\<close> has no cap on the bytes it consumes. The only bound is
  the buffer: a successful read consumes between 1 and \<open>length data - off\<close> bytes. A run of
  \<open>k\<close> continuation bytes followed by a terminator is accepted for every \<open>k\<close>, and
  \<open>k + 1\<close> bytes are consumed.
\<close>

theorem read_leb128_no_cap:
  "(read_leb128 data off = Inr (v, n) \<longrightarrow> 1 \<le> n \<and> off + n \<le> length data) \<and>
   read_leb128 (replicate k 0x80 @ [0x01]) 0 = Inr (2 ^ (7 * k), k + 1)"
proof
  show "read_leb128 data off = Inr (v, n) \<longrightarrow> 1 \<le> n \<and> off + n \<le> length data"
    using read_leb128_bounds by blast
next
  have "drop 0 (replicate k (0x80::byte) @ [0x01]) = replicate k 0x80 @ 0x01 # []" by simp
  moreover have "unterminated (replicate k (0x80::byte))" by (simp add: unterminated_set)
  moreover have "(0x01::byte) AND 0x80 = 0" by simp
  ultimately have "read_leb128 (replicate k 0x80 @ [0x01]) 0 =
      Inr (leb_value (replicate k 0x80 @ [0x01]), length (replicate k (0x80::byte)) + 1)"
    by (rule read_leb128_terminated)
  then show "read_leb128 (replicate k 0x80 @ [0x01]) 0 = Inr (2 ^ (7 * k), k + 1)"
    by (simp add: leb_value_run_one)
qed

theorem read_leb128_no_cap_witness:
  "read_leb128 (replicate 9 0x80 @ [0x01]) 0 = Inr (2 ^ 63, 10) \<and>
   (1::nat) \<le> 10 \<and> 0 + 10 \<le> length (replicate 9 (0x80::byte) @ [0x01])"
  using read_leb128_no_cap [of "replicate 9 0x80 @ [0x01]" 0 "2 ^ 63" 10 9]
  by simp

text \<open>
  Claim C4 as stated fails: seven bytes are read where a cap of five is claimed, and no constant
  bounds the bytes consumed.
\<close>

theorem read_leb128_cap_counterexample:
  "read_leb128 [0x80, 0x80, 0x80, 0x80, 0x80, 0x80, 0x01] 0 = Inr (2 ^ 42, 7) \<and>
   \<not> (\<exists>B. \<forall>data off v n. read_leb128 data off = Inr (v, n) \<longrightarrow> n \<le> B)"
proof
  show "read_leb128 [0x80, 0x80, 0x80, 0x80, 0x80, 0x80, 0x01] 0 = Inr (2 ^ 42, 7)"
    by (simp add: read_leb128_def read_leb128_loop.simps)
next
  show "\<not> (\<exists>B. \<forall>data off v n. read_leb128 data off = Inr (v, n) \<longrightarrow> n \<le> B)"
  proof
    assume "\<exists>B. \<forall>data off v n. read_leb128 data off = Inr (v, n) \<longrightarrow> n \<le> B"
    then obtain B where B: "\<And>data off v n. read_leb128 data off = Inr (v, n) \<Longrightarrow> n \<le> B"
      by blast
    have "drop 0 (replicate B (0x80::byte) @ [0x01]) = replicate B 0x80 @ 0x01 # []" by simp
    moreover have "unterminated (replicate B (0x80::byte))" by (simp add: unterminated_set)
    moreover have "(0x01::byte) AND 0x80 = 0" by simp
    ultimately have "read_leb128 (replicate B 0x80 @ [0x01]) 0 =
        Inr (leb_value (replicate B 0x80 @ [0x01]), length (replicate B (0x80::byte)) + 1)"
      by (rule read_leb128_terminated)
    from B [OF this] show False by simp
  qed
qed

section \<open>Sections of a module, as the specification frames them\<close>

text \<open>
  The section table of the specification: starting at offset \<open>p\<close>, a section is one id
  byte, a varint \<open>payload_size\<close> and \<open>payload_size\<close> payload bytes; its span is
  \<open>[p, payload_end)\<close>. The walk yields the spans in file order, and yields nothing when a
  size field cannot be decoded or a span leaves the buffer.
\<close>

function sections :: "byte list \<Rightarrow> nat \<Rightarrow> (nat \<times> nat) list option" where
  "sections data p =
     (if p < length data then
        (case read_leb128 data (p + 1) of
           Inl e \<Rightarrow> None
         | Inr (payload_size, n) \<Rightarrow>
             (let payload_end = p + 1 + n + payload_size
              in if payload_end \<le> length data
                 then map_option ((#) (p, payload_end)) (sections data payload_end)
                 else None))
      else Some [])"
  by pat_completeness auto
termination
proof (relation "measure (\<lambda>(data, p). length data - p)")
  show "wf (measure (\<lambda>(data, p). length data - p))" by simp
next
  fix data :: "byte list" and p x2 x y xa
  assume "p < length data" "read_leb128 data (p + 1) = Inr x2" "(x, y) = x2"
    "xa = p + 1 + y + x" "xa \<le> length data"
  then show "((data, xa), (data, p)) \<in> measure (\<lambda>(data, p). length data - p)"
    by simp
qed

declare sections.simps [simp del]

text \<open>A well-formed module: the magic number is there and every section's declared span
  lies within the buffer.\<close>

definition well_formed :: "byte list \<Rightarrow> bool" where
  "well_formed data = (take 4 data = magic \<and> sections data 8 \<noteq> None)"

definition span_bytes :: "byte list \<Rightarrow> nat \<times> nat \<Rightarrow> byte list" where
  "span_bytes data sp = bytes_slice data (fst sp) (snd sp)"

text \<open>
  The decoded name of the section that starts at \<open>p\<close>, as the Framer's step 4 reads it: for
  a custom section (id 0), a varint \<open>name_length\<close> at the payload start and the
  \<open>name_length\<close> bytes after it. \<open>None\<close> for any other section, and for a custom section
  whose \<open>name_length\<close> cannot be decoded.
\<close>

definition section_name :: "byte list \<Rightarrow> nat \<Rightarrow> nat list option" where
  "section_name data p =
     (if p < length data \<and> data ! p = 0 then
        (case read_leb128 data (p + 1) of
           Inl e \<Rightarrow> None
         | Inr (payload_size, n) \<Rightarrow>
             (case read_leb128 data (p + 1 + n) of
                Inl e \<Rightarrow> None
              | Inr (name_length, m) \<Rightarrow>
                  Some (utf8_decode_replace
                    (map unat (bytes_slice data (p + 1 + n + m) (p + 1 + n + m + name_length))))))
      else None)"

text \<open>The sections the pass is to remove: custom sections whose decoded name is
  \<open>target_features\<close>.\<close>

definition is_target :: "byte list \<Rightarrow> nat \<times> nat \<Rightarrow> bool" where
  "is_target data sp = (section_name data (fst sp) = Some target_features)"

text \<open>The name length of a custom section can be decoded: its varint ends inside the
  buffer. Nothing is asked of other sections.\<close>

definition name_length_readable :: "byte list \<Rightarrow> nat \<times> nat \<Rightarrow> bool" where
  "name_length_readable data sp =
     (if data ! fst sp = 0 then section_name data (fst sp) \<noteq> None else True)"

text \<open>The line printed for a stripped section: the length of its span.\<close>

definition stripped_message :: "nat \<times> nat \<Rightarrow> message" where
  "stripped_message sp = Stripped (snd sp - fst sp)"

lemma span_bytes_pair: "span_bytes data (a, b) = bytes_slice data a b"
  by (simp add: span_bytes_def)

section \<open>One iteration of the loop\<close>

lemma strip_step_eq:
  assumes "pos s < length data" and "read_leb128 data (pos s + 1) = Inr (payload_size, n)"
    and "e = pos s + 1 + n + payload_size"
  shows "strip_step data s =
     (if data ! pos s = 0 \<and> section_name data (pos s) = None then Inl IndexError
      else if is_target data (pos s, e)
      then Inr (s\<lparr>pos := e, stripped := True, err := err s @ [Stripped (e - pos s)]\<rparr>)
      else Inr (s\<lparr>pos := e, out := out s @ bytes_slice data (pos s) e\<rparr>))"
proof (cases "data ! pos s = 0")
  case False
  with assms show ?thesis
    by (simp add: strip_step_def is_target_def section_name_def Let_def)
next
  case True
  show ?thesis
  proof (cases "read_leb128 data (pos s + 1 + n)")
    case (Inl err)
    then have "err = IndexError" by (simp add: read_leb128_InlD)
    with Inl True assms show ?thesis
      by (simp add: strip_step_def is_target_def section_name_def Let_def)
  next
    case (Inr r)
    obtain name_len m where r: "r = (name_len, m)" by (cases r)
    with Inr True assms show ?thesis
      by (simp add: strip_step_def is_target_def section_name_def Let_def)
  qed
qed

lemma strip_step_size_fails:
  assumes "pos s < length data" and "read_leb128 data (pos s + 1) = Inl e"
  shows "strip_step data s = Inl IndexError"
  using assms read_leb128_InlD [OF assms(2)] by (simp add: strip_step_def)

lemma strip_loop_done: "length data \<le> pos s \<Longrightarrow> strip_loop data s = Inr s"
  by (simp add: strip_loop.simps [of data s])

lemma strip_loop_step:
  "pos s < length data \<Longrightarrow> strip_step data s = Inr s' \<Longrightarrow> strip_loop data s = strip_loop data s'"
  by (simp add: strip_loop.simps [of data s])

lemma strip_loop_fail:
  "pos s < length data \<Longrightarrow> strip_step data s = Inl e \<Longrightarrow> strip_loop data s = Inl e"
  by (simp add: strip_loop.simps [of data s])

section \<open>The loop on a framed module\<close>

lemma sections_done: "length data \<le> p \<Longrightarrow> sections data p = Some []"
  by (simp add: sections.simps [of data p])

lemma sections_step:
  assumes "p < length data" and "sections data p = Some secs"
  obtains payload_size n rest where "read_leb128 data (p + 1) = Inr (payload_size, n)"
    "p + 1 + n + payload_size \<le> length data"
    "sections data (p + 1 + n + payload_size) = Some rest"
    "secs = (p, p + 1 + n + payload_size) # rest"
  using assms
  by (auto simp: sections.simps [of data p] Let_def split: sum.splits if_splits)

lemma strip_loop_sections:
  assumes "sections data p = Some secs" and "list_all (name_length_readable data) secs"
    and "pos s = p"
  shows "strip_loop data s =
     Inr (s\<lparr>pos := max p (length data),
            out := out s @ concat (map (span_bytes data) (filter (\<lambda>sp. \<not> is_target data sp) secs)),
            stripped := (stripped s \<or> filter (is_target data) secs \<noteq> []),
            err := err s @ map stripped_message (filter (is_target data) secs)\<rparr>)"
  using assms
proof (induction data p arbitrary: s secs rule: sections.induct)
  case (1 data p)
  show ?case
  proof (cases "p < length data")
    case False
    then have "secs = []" using "1.prems"(1) by (simp add: sections_done)
    with False "1.prems"(3) show ?thesis
      by (simp add: strip_loop_done max_def)
  next
    case True
    from sections_step [OF True "1.prems"(1)]
    obtain payload_size n rest where
      rd: "read_leb128 data (p + 1) = Inr (payload_size, n)" and
      le: "p + 1 + n + payload_size \<le> length data" and
      rest: "sections data (p + 1 + n + payload_size) = Some rest" and
      secs: "secs = (p, p + 1 + n + payload_size) # rest"
      by blast
    let ?e = "p + 1 + n + payload_size"
    have readable: "name_length_readable data (p, ?e)" and rest_ok: "list_all (name_length_readable data) rest"
      using "1.prems"(2) secs by simp_all
    have ps: "pos s < length data" "read_leb128 data (pos s + 1) = Inr (payload_size, n)"
      "?e = pos s + 1 + n + payload_size"
      using True rd "1.prems"(3) by simp_all
    have no_fail: "\<not> (data ! pos s = 0 \<and> section_name data (pos s) = None)"
      using readable "1.prems"(3) by (auto simp: name_length_readable_def)
    have mx: "max ?e (length data) = max p (length data)"
      using le True by simp
    show ?thesis
    proof (cases "is_target data (p, ?e)")
      case t: True
      let ?s' = "s\<lparr>pos := ?e, stripped := True, err := err s @ [Stripped (?e - pos s)]\<rparr>"
      have step: "strip_step data s = Inr ?s'"
        using strip_step_eq [OF ps] no_fail t "1.prems"(3) by simp
      have "strip_loop data s = strip_loop data ?s'"
        by (rule strip_loop_step [OF ps(1) step])
      also have "\<dots> = Inr (?s'\<lparr>pos := max ?e (length data),
            out := out ?s' @ concat (map (span_bytes data) (filter (\<lambda>sp. \<not> is_target data sp) rest)),
            stripped := (stripped ?s' \<or> filter (is_target data) rest \<noteq> []),
            err := err ?s' @ map stripped_message (filter (is_target data) rest)\<rparr>)"
        by (rule "1.IH" [OF True rd refl refl le rest rest_ok]) simp
      finally show ?thesis
        using t secs mx "1.prems"(3) by (simp add: stripped_message_def)
    next
      case f: False
      let ?s' = "s\<lparr>pos := ?e, out := out s @ bytes_slice data (pos s) ?e\<rparr>"
      have step: "strip_step data s = Inr ?s'"
        using strip_step_eq [OF ps] no_fail f "1.prems"(3) by simp
      have "strip_loop data s = strip_loop data ?s'"
        by (rule strip_loop_step [OF ps(1) step])
      also have "\<dots> = Inr (?s'\<lparr>pos := max ?e (length data),
            out := out ?s' @ concat (map (span_bytes data) (filter (\<lambda>sp. \<not> is_target data sp) rest)),
            stripped := (stripped ?s' \<or> filter (is_target data) rest \<noteq> []),
            err := err ?s' @ map stripped_message (filter (is_target data) rest)\<rparr>)"
        by (rule "1.IH" [OF True rd refl refl le rest rest_ok]) simp
      finally show ?thesis
        using f secs mx "1.prems"(3) by (simp add: span_bytes_pair)
    qed
  qed
qed

section \<open>Spans of a framed module\<close>

lemma drop_take_drop: "a \<le> b \<Longrightarrow> drop a (take b xs) @ drop b xs = drop a xs"
proof -
  assume ab: "a \<le> b"
  have "drop a (take b xs @ drop b xs) = drop a (take b xs) @ drop (a - length (take b xs)) (drop b xs)"
    by (rule drop_append)
  moreover have "drop (a - length (take b xs)) (drop b xs) = drop b xs"
    using ab by (cases "b \<le> length xs") simp_all
  ultimately show ?thesis by (simp only: append_take_drop_id)
qed

lemma sections_concat:
  "sections data p = Some secs \<Longrightarrow> concat (map (span_bytes data) secs) = drop p data"
proof (induction data p arbitrary: secs rule: sections.induct)
  case (1 data p)
  show ?case
  proof (cases "p < length data")
    case False
    with "1.prems" show ?thesis by (simp add: sections_done)
  next
    case True
    from sections_step [OF True "1.prems"]
    obtain payload_size n rest where
      rd: "read_leb128 data (p + 1) = Inr (payload_size, n)" and
      le: "p + 1 + n + payload_size \<le> length data" and
      rest: "sections data (p + 1 + n + payload_size) = Some rest" and
      secs: "secs = (p, p + 1 + n + payload_size) # rest"
      by blast
    have "concat (map (span_bytes data) rest) = drop (p + 1 + n + payload_size) data"
      by (rule "1.IH" [OF True rd refl refl le rest])
    with secs show ?thesis
      by (simp add: span_bytes_pair bytes_slice_def drop_take_drop)
  qed
qed

lemma sections_bounds:
  "sections data p = Some secs \<Longrightarrow> sp \<in> set secs \<Longrightarrow> fst sp < snd sp \<and> snd sp \<le> length data"
proof (induction data p arbitrary: secs rule: sections.induct)
  case (1 data p)
  show ?case
  proof (cases "p < length data")
    case False
    with "1.prems" show ?thesis by (simp add: sections_done)
  next
    case True
    from sections_step [OF True "1.prems"(1)]
    obtain payload_size n rest where
      rd: "read_leb128 data (p + 1) = Inr (payload_size, n)" and
      le: "p + 1 + n + payload_size \<le> length data" and
      rest: "sections data (p + 1 + n + payload_size) = Some rest" and
      secs: "secs = (p, p + 1 + n + payload_size) # rest"
      by blast
    from "1.prems"(2) secs have "sp = (p, p + 1 + n + payload_size) \<or> sp \<in> set rest" by simp
    then show ?thesis
    proof
      assume "sp = (p, p + 1 + n + payload_size)"
      with le show ?thesis by simp
    next
      assume "sp \<in> set rest"
      then show ?thesis by (rule "1.IH" [OF True rd refl refl le rest])
    qed
  qed
qed

lemma span_bytes_length:
  "fst sp < snd sp \<and> snd sp \<le> length data \<Longrightarrow> length (span_bytes data sp) = snd sp - fst sp"
  by (simp add: span_bytes_def bytes_slice_def)

lemma length_concat_spans:
  assumes "\<And>sp. sp \<in> set secs \<Longrightarrow> fst sp < snd sp \<and> snd sp \<le> length data"
  shows "length (concat (map (span_bytes data) secs)) = sum_list (map (\<lambda>sp. snd sp - fst sp) secs)"
  using assms by (induction secs) (simp_all add: span_bytes_length)

lemma sum_list_filter_split:
  fixes f :: "'a \<Rightarrow> nat"
  shows "sum_list (map f (filter P xs)) + sum_list (map f (filter (\<lambda>x. \<not> P x) xs)) = sum_list (map f xs)"
  by (induction xs) simp_all

section \<open>The whole pass on a framed module\<close>

lemma main_sections:
  assumes "take 4 data = magic" and "sections data 8 = Some secs"
    and "list_all (name_length_readable data) secs"
  shows "main data =
     Inr \<lparr>out_file = take 8 data @
             concat (map (span_bytes data) (filter (\<lambda>sp. \<not> is_target data sp) secs)),
          stderr = map stripped_message (filter (is_target data) secs) @
             (if filter (is_target data) secs = [] then [NoSectionWarning] else [])\<rparr>"
proof -
  let ?s = "\<lparr>pos = 8, out = take 8 data, stripped = False, err = []\<rparr>"
  have "pos ?s = 8" by simp
  from strip_loop_sections [OF assms(2,3) this] assms(1) show ?thesis
    by (simp add: main_def)
qed

section \<open>Example modules\<close>

definition example_header :: "byte list" where
  "example_header = [0x00, 0x61, 0x73, 0x6D, 0x01, 0x00, 0x00, 0x00]"

definition target_section :: "byte list" where
  "target_section =
     [0x00, 0x12, 0x0F, 0x74, 0x61, 0x72, 0x67, 0x65, 0x74, 0x5F, 0x66, 0x65, 0x61, 0x74, 0x75,
      0x72, 0x65, 0x73, 0x01, 0x02]"

definition other_section :: "byte list" where
  "other_section = [0x00, 0x07, 0x05, 0x6F, 0x74, 0x68, 0x65, 0x72, 0xAA]"

definition type_section :: "byte list" where
  "type_section = [0x01, 0x02, 0xAA, 0xBB]"

definition empty_custom_section :: "byte list" where
  "empty_custom_section = [0x00, 0x00]"

lemmas example_defs = example_header_def target_section_def other_section_def type_section_def
  empty_custom_section_def

lemmas eval_defs = read_leb128_def read_leb128_loop.simps strip_step_def strip_loop.simps main_def
  utf8_decode_replace.simps utf8_valid.simps bytes_slice_def magic_def target_features_def Let_def
  sections.simps well_formed_def section_name_def is_target_def name_length_readable_def
  span_bytes_def stripped_message_def

section \<open>Claims about the whole pass\<close>

text \<open>
  Claim C1 (amended). For a well-formed module in which the name length of every custom
  section can be decoded, the pass succeeds. Its output is the 8-byte header followed by the
  spans, verbatim and in file order, of exactly the sections that are not custom sections with
  the decoded name \<open>target_features\<close>; every section that is one is left out, and one
  \<open>Stripped\<close> line with its span length is printed for each.
\<close>

theorem strip_removes_exactly_targets:
  assumes "well_formed data" and "sections data 8 = Some secs"
    and "list_all (name_length_readable data) secs"
  shows "main data =
     Inr \<lparr>out_file = take 8 data @
             concat (map (span_bytes data) (filter (\<lambda>sp. \<not> is_target data sp) secs)),
          stderr = map stripped_message (filter (is_target data) secs) @
             (if filter (is_target data) secs = [] then [NoSectionWarning] else [])\<rparr>"
proof -
  from assms(1) have "take 4 data = magic" by (simp add: well_formed_def)
  then show ?thesis using assms(2,3) by (rule main_sections)
qed

definition three_targets_module :: "byte list" where
  "three_targets_module =
     example_header @ target_section @ type_section @ target_section @ other_section @
     target_section"

theorem strip_removes_exactly_targets_witness:
  "well_formed three_targets_module \<and>
   sections three_targets_module 8 = Some [(8, 28), (28, 32), (32, 52), (52, 61), (61, 81)] \<and>
   list_all (name_length_readable three_targets_module)
     [(8, 28), (28, 32), (32, 52), (52, 61), (61, 81)] \<and>
   main three_targets_module =
     Inr \<lparr>out_file = example_header @ type_section @ other_section,
          stderr = [Stripped 20, Stripped 20, Stripped 20]\<rparr>"
proof -
  have s: "sections three_targets_module 8 = Some [(8, 28), (28, 32), (32, 52), (52, 61), (61, 81)]"
    by (simp add: three_targets_module_def example_defs sections.simps read_leb128_def
        read_leb128_loop.simps)
  have w: "well_formed three_targets_module"
    unfolding well_formed_def s by (simp add: three_targets_module_def example_defs magic_def)
  have r: "list_all (name_length_readable three_targets_module)
     [(8, 28), (28, 32), (32, 52), (52, 61), (61, 81)]"
    by (simp add: three_targets_module_def example_defs name_length_readable_def section_name_def
        read_leb128_def read_leb128_loop.simps)
  have t: "map (is_target three_targets_module) [(8, 28), (28, 32), (32, 52), (52, 61), (61, 81)] =
      [True, False, True, False, True]"
    by (simp add: three_targets_module_def example_defs eval_defs)
  from t have f1: "filter (is_target three_targets_module)
      [(8, 28), (28, 32), (32, 52), (52, 61), (61, 81)] = [(8, 28), (32, 52), (61, 81)]"
    by simp
  from t have f2: "filter (\<lambda>sp. \<not> is_target three_targets_module sp)
      [(8, 28), (28, 32), (32, 52), (52, 61), (61, 81)] = [(28, 32), (52, 61)]"
    by simp
  have sp: "take 8 three_targets_module @ concat (map (span_bytes three_targets_module) [(28, 32), (52, 61)]) =
      example_header @ type_section @ other_section"
    by (simp add: three_targets_module_def example_defs span_bytes_def bytes_slice_def)
  from strip_removes_exactly_targets [OF w s r]
  have "main three_targets_module =
     Inr \<lparr>out_file = example_header @ type_section @ other_section,
          stderr = [Stripped 20, Stripped 20, Stripped 20]\<rparr>"
    unfolding f1 f2 sp by (simp add: stripped_message_def)
  with w s r show ?thesis by simp
qed

text \<open>
  Claim C1 as stated fails: a module whose only section is a custom section with an empty
  payload is well-formed (its span \<open>[8, 10)\<close> lies within the buffer), yet the pass raises
  \<open>IndexError\<close> when it reads the name length at offset 10 and writes no output.
\<close>

theorem strip_removes_exactly_targets_counterexample:
  "well_formed (example_header @ empty_custom_section) \<and>
   sections (example_header @ empty_custom_section) 8 = Some [(8, 10)] \<and>
   main (example_header @ empty_custom_section) = Inl IndexError"
  by (simp add: example_defs eval_defs)

text \<open>
  Claim C6 (amended). For a well-formed module in which the name length of every custom
  section can be decoded and no custom section's decoded name is \<open>target_features\<close>, the
  pass succeeds, the output is the input byte for byte, and the only diagnostic is the warning
  that no section was found.
\<close>

theorem strip_absent_is_identity:
  assumes "well_formed data" and "sections data 8 = Some secs"
    and "list_all (name_length_readable data) secs"
    and "list_all (\<lambda>sp. \<not> is_target data sp) secs"
  shows "main data = Inr \<lparr>out_file = data, stderr = [NoSectionWarning]\<rparr>"
proof -
  from assms(1) have m: "take 4 data = magic" by (simp add: well_formed_def)
  from assms(4) have none: "filter (is_target data) secs = []"
    by (simp add: list_all_iff filter_empty_conv)
  from assms(4) have all: "filter (\<lambda>sp. \<not> is_target data sp) secs = secs"
    by (simp add: list_all_iff)
  have "take 8 data @ concat (map (span_bytes data) secs) = data"
    by (simp add: sections_concat [OF assms(2)])
  with main_sections [OF m assms(2,3)] none all show ?thesis by simp
qed

theorem strip_absent_is_identity_witness:
  "well_formed (example_header @ type_section @ other_section) \<and>
   sections (example_header @ type_section @ other_section) 8 = Some [(8, 12), (12, 21)] \<and>
   list_all (name_length_readable (example_header @ type_section @ other_section)) [(8, 12), (12, 21)] \<and>
   list_all (\<lambda>sp. \<not> is_target (example_header @ type_section @ other_section) sp) [(8, 12), (12, 21)] \<and>
   main (example_header @ type_section @ other_section) =
     Inr \<lparr>out_file = example_header @ type_section @ other_section, stderr = [NoSectionWarning]\<rparr>"
proof -
  let ?m = "example_header @ type_section @ other_section"
  have s: "sections ?m 8 = Some [(8, 12), (12, 21)]"
    by (simp add: example_defs sections.simps read_leb128_def read_leb128_loop.simps)
  have w: "well_formed ?m"
    unfolding well_formed_def s by (simp add: example_defs magic_def)
  have r: "list_all (name_length_readable ?m) [(8, 12), (12, 21)]"
    by (simp add: example_defs name_length_readable_def section_name_def
        read_leb128_def read_leb128_loop.simps)
  have t: "list_all (\<lambda>sp. \<not> is_target ?m sp) [(8, 12), (12, 21)]"
    by (simp add: example_defs eval_defs)
  from strip_absent_is_identity [OF w s r t] w s r t show ?thesis by blast
qed

text \<open>
  Claim C6 as stated fails: the module below is well-formed and none of its custom sections
  has the decoded name \<open>target_features\<close>, yet the pass raises \<open>IndexError\<close> on the last
  section, whose payload is empty, and writes no output.
\<close>

theorem strip_absent_is_identity_counterexample:
  "well_formed (example_header @ other_section @ empty_custom_section) \<and>
   sections (example_header @ other_section @ empty_custom_section) 8 = Some [(8, 17), (17, 19)] \<and>
   list_all (\<lambda>sp. \<not> is_target (example_header @ other_section @ empty_custom_section) sp)
     [(8, 17), (17, 19)] \<and>
   main (example_header @ other_section @ empty_custom_section) = Inl IndexError"
  by (simp add: example_defs eval_defs)

text \<open>
  Claim C8 (amended). For a well-formed module in which the name length of every custom
  section can be decoded, the pass succeeds and the length of the output plus the span lengths
  (id byte, size field and payload) of the removed sections is the length of the input; the
  \<open>Stripped\<close> lines report exactly these span lengths.
\<close>

theorem strip_output_length:
  assumes "well_formed data" and "sections data 8 = Some secs"
    and "list_all (name_length_readable data) secs"
  shows "\<exists>r. main data = Inr r \<and>
           length (out_file r) =
             length data - sum_list (map (\<lambda>sp. snd sp - fst sp) (filter (is_target data) secs)) \<and>
           sum_list (map (\<lambda>sp. snd sp - fst sp) (filter (is_target data) secs)) \<le> length data \<and>
           filter (\<lambda>m. m \<noteq> NoSectionWarning) (stderr r) =
             map (\<lambda>sp. Stripped (snd sp - fst sp)) (filter (is_target data) secs)"
proof -
  let ?len = "\<lambda>sp :: nat \<times> nat. snd sp - fst sp"
  let ?kept = "filter (\<lambda>sp. \<not> is_target data sp) secs"
  let ?gone = "filter (is_target data) secs"
  let ?r = "\<lparr>out_file = take 8 data @ concat (map (span_bytes data) ?kept),
             stderr = map stripped_message ?gone @ (if ?gone = [] then [NoSectionWarning] else [])\<rparr>"
  from assms(1) have m: "take 4 data = magic" by (simp add: well_formed_def)
  have main: "main data = Inr ?r" by (rule main_sections [OF m assms(2,3)])
  have bounds: "\<And>sp. sp \<in> set secs \<Longrightarrow> fst sp < snd sp \<and> snd sp \<le> length data"
    by (rule sections_bounds [OF assms(2)])
  have "length (concat (map (span_bytes data) secs)) = length (drop 8 data)"
    by (simp only: sections_concat [OF assms(2)])
  then have total: "sum_list (map ?len secs) = length data - 8"
    by (simp add: length_concat_spans [OF bounds])
  have kept: "length (concat (map (span_bytes data) ?kept)) = sum_list (map ?len ?kept)"
    by (rule length_concat_spans) (simp add: bounds)
  have split: "sum_list (map ?len ?gone) + sum_list (map ?len ?kept) = length data - 8"
    using sum_list_filter_split [of ?len "is_target data" secs] total by simp
  have len: "length (out_file ?r) = length data - sum_list (map ?len ?gone)"
  proof -
    have "length (out_file ?r) = min (length data) 8 + sum_list (map ?len ?kept)"
      using kept by simp
    moreover define g k where "g = sum_list (map ?len ?gone)" and "k = sum_list (map ?len ?kept)"
    ultimately have "length (out_file ?r) = min (length data) 8 + k" and "g + k = length data - 8"
      using split by simp_all
    then have "length (out_file ?r) = length data - g" by arith
    then show ?thesis by (simp only: g_def)
  qed
  have le: "sum_list (map ?len ?gone) \<le> length data"
    using split by simp
  have msgs: "filter (\<lambda>m. m \<noteq> NoSectionWarning) (stderr ?r) = map (\<lambda>sp. Stripped (snd sp - fst sp)) ?gone"
    by (simp add: stripped_message_def filter_map comp_def)
  from main len le msgs show ?thesis by blast
qed

theorem strip_output_length_witness:
  "well_formed (example_header @ target_section @ other_section) \<and>
   sections (example_header @ target_section @ other_section) 8 = Some [(8, 28), (28, 37)] \<and>
   list_all (name_length_readable (example_header @ target_section @ other_section)) [(8, 28), (28, 37)] \<and>
   filter (is_target (example_header @ target_section @ other_section)) [(8, 28), (28, 37)] = [(8, 28)] \<and>
   (\<exists>r. main (example_header @ target_section @ other_section) = Inr r \<and>
        length (out_file r) = 37 - 20 \<and> stderr r = [Stripped 20])"
proof -
  let ?m = "example_header @ target_section @ other_section"
  have s: "sections ?m 8 = Some [(8, 28), (28, 37)]"
    by (simp add: example_defs sections.simps read_leb128_def read_leb128_loop.simps)
  have w: "well_formed ?m"
    unfolding well_formed_def s by (simp add: example_defs magic_def)
  have r: "list_all (name_length_readable ?m) [(8, 28), (28, 37)]"
    by (simp add: example_defs name_length_readable_def section_name_def
        read_leb128_def read_leb128_loop.simps)
  have t: "filter (is_target ?m) [(8, 28), (28, 37)] = [(8, 28)]"
    by (simp add: example_defs eval_defs)
  have l: "length ?m = 37" by (simp add: example_defs)
  have e: "main ?m = Inr \<lparr>out_file = example_header @ other_section, stderr = [Stripped 20]\<rparr>"
    by (simp add: example_defs eval_defs)
  from strip_output_length [OF w s r] obtain r' where
    "main ?m = Inr r'" "length (out_file r') = length ?m - sum_list (map (\<lambda>sp. snd sp - fst sp) (filter (is_target ?m) [(8, 28), (28, 37)]))"
    by blast
  with e have "\<exists>r. main ?m = Inr r \<and> length (out_file r) = 37 - 20 \<and> stderr r = [Stripped 20]"
    unfolding t l by auto
  with w s r t show ?thesis by blast
qed

text \<open>
  Claim C8 as stated fails: the module below is well-formed, but the pass raises
  \<open>IndexError\<close> on its last section and there is no output whose length could be taken.
\<close>

theorem strip_output_length_counterexample:
  "well_formed (example_header @ target_section @ empty_custom_section) \<and>
   sections (example_header @ target_section @ empty_custom_section) 8 = Some [(8, 28), (28, 30)] \<and>
   main (example_header @ target_section @ empty_custom_section) = Inl IndexError"
  by (simp add: example_defs eval_defs)

section \<open>States the loop reaches\<close>

text \<open>The variables before the first round, and the result \<^verbatim>\<open>main\<close> makes of the
  variables after the last.\<close>

definition initial :: "byte list \<Rightarrow> state" where
  "initial data = \<lparr>pos = 8, out = take 8 data, stripped = False, err = []\<rparr>"

definition finish :: "state \<Rightarrow> result" where
  "finish s =
     \<lparr>out_file = out s,
      stderr = (if stripped s then err s else err s @ [NoSectionWarning])\<rparr>"

text \<open>The states in which the loop condition of \<^verbatim>\<open>main\<close> is evaluated on the input
  \<open>data\<close>: the state before the first round, and the state after every round that raised
  nothing.\<close>

inductive reach :: "byte list \<Rightarrow> state \<Rightarrow> bool" for data :: "byte list" where
  reach_initial: "reach data (initial data)"
| reach_step: "reach data s \<Longrightarrow> pos s < length data \<Longrightarrow> strip_step data s = Inr s' \<Longrightarrow> reach data s'"

code_pred reach .

text \<open>The offsets at which the iteration that starts in state \<open>s\<close> calls \<open>read_leb128\<close>:
  the size field, and for a custom section the name length.\<close>

definition varint_offsets :: "byte list \<Rightarrow> state \<Rightarrow> nat list" where
  "varint_offsets data s =
     (pos s + 1) #
     (case read_leb128 data (pos s + 1) of
        Inl e \<Rightarrow> []
      | Inr (section_size, leb_len) \<Rightarrow>
          if data ! pos s = 0 then [pos s + 1 + leb_len] else [])"

lemma main_initial:
  "take 4 data = magic \<Longrightarrow>
   main data = (case strip_loop data (initial data) of Inl e \<Rightarrow> Inl e | Inr s \<Rightarrow> Inr (finish s))"
  by (simp add: main_def initial_def finish_def split: sum.splits)

lemma reach_strip_loop: "reach data s \<Longrightarrow> strip_loop data (initial data) = strip_loop data s"
  by (induction rule: reach.induct) (simp_all add: strip_loop_step)

lemma main_reach:
  assumes "take 4 data = magic" and "reach data s"
  shows "main data = (case strip_loop data s of Inl e \<Rightarrow> Inl e | Inr s' \<Rightarrow> Inr (finish s'))"
  using main_initial [OF assms(1)] reach_strip_loop [OF assms(2)] by simp

lemma main_reach_fail:
  assumes "take 4 data = magic" and "reach data s" and "pos s < length data"
    and "strip_step data s = Inl e"
  shows "main data = Inl e"
  using main_reach [OF assms(1,2)] strip_loop_fail [OF assms(3,4)] by simp


lemma strip_step_name_fails:
  assumes "pos s < length data" and "data ! pos s = 0"
    and "read_leb128 data (pos s + 1) = Inr (section_size, leb_len)"
    and "read_leb128 data (pos s + 1 + leb_len) = Inl e"
  shows "strip_step data s = Inl IndexError"
  using assms read_leb128_InlD [OF assms(4)] by (simp add: strip_step_def)

text \<open>
  Claim C3. When the continuation bit of a varint the pass decodes (the size field of a section
  the walk has reached, or the name length of a custom section) never clears before the end of
  the buffer, \<open>read_leb128\<close> fails, the iteration fails, and the pass ends with the
  exception: no output file is written. The error of the specification, MalformedEncoding, is
  Python's \<open>IndexError\<close> in the code.
\<close>

theorem unterminated_varint_aborts:
  assumes "take 4 data = magic" and "reach data s" and "pos s < length data"
    and "off \<in> set (varint_offsets data s)"
    and "unterminated (drop off data)"
  shows "read_leb128 data off = Inl IndexError \<and> strip_step data s = Inl IndexError \<and>
         main data = Inl IndexError"
proof -
  have rd: "read_leb128 data off = Inl IndexError"
    by (rule read_leb128_unterminated [OF assms(5)])
  have step: "strip_step data s = Inl IndexError"
  proof (cases "off = pos s + 1")
    case True
    with rd show ?thesis by (simp add: strip_step_size_fails [OF assms(3)])
  next
    case False
    show ?thesis
    proof (cases "read_leb128 data (pos s + 1)")
      case (Inl e)
      then show ?thesis by (simp add: strip_step_size_fails [OF assms(3)])
    next
      case (Inr r)
      obtain section_size leb_len where r: "r = (section_size, leb_len)" by (cases r)
      from Inr r have sz: "read_leb128 data (pos s + 1) = Inr (section_size, leb_len)" by simp
      from assms(4) False sz have custom: "data ! pos s = 0" and off: "off = pos s + 1 + leb_len"
        by (simp_all add: varint_offsets_def split: if_splits)
      from rd off have "read_leb128 data (pos s + 1 + leb_len) = Inl IndexError" by simp
      from strip_step_name_fails [OF assms(3) custom sz this] show ?thesis .
    qed
  qed
  from rd step main_reach_fail [OF assms(1,2,3) step] show ?thesis by simp
qed

theorem unterminated_varint_aborts_witness:
  "take 4 (example_header @ [0x01, 0x80, 0x80]) = magic \<and>
   reach (example_header @ [0x01, 0x80, 0x80]) (initial (example_header @ [0x01, 0x80, 0x80])) \<and>
   pos (initial (example_header @ [0x01, 0x80, 0x80])) < length (example_header @ [0x01, 0x80, 0x80]) \<and>
   9 \<in> set (varint_offsets (example_header @ [0x01, 0x80, 0x80]) (initial (example_header @ [0x01, 0x80, 0x80]))) \<and>
   unterminated (drop 9 (example_header @ [0x01, 0x80, 0x80])) \<and>
   read_leb128 (example_header @ [0x01, 0x80, 0x80]) 9 = Inl IndexError \<and>
   main (example_header @ [0x01, 0x80, 0x80]) = Inl IndexError"
proof -
  let ?m = "example_header @ [0x01, 0x80, 0x80]"
  have a: "take 4 ?m = magic" by (simp add: example_defs magic_def)
  have b: "reach ?m (initial ?m)" by (rule reach_initial)
  have c: "pos (initial ?m) < length ?m" by (simp add: initial_def example_defs)
  have d: "9 \<in> set (varint_offsets ?m (initial ?m))" by (simp add: varint_offsets_def initial_def)
  have e: "unterminated (drop 9 ?m)" by (simp add: unterminated_def example_defs)
  from unterminated_varint_aborts [OF a b c d e] a b c d e show ?thesis by blast
qed




section \<open>Names that are not valid UTF-8\<close>

lemma utf8_decode_replace_Nil: "utf8_decode_replace [] = []"
  by (simp add: utf8_decode_replace.simps)

lemma utf8_valid_Nil: "utf8_valid []"
  by (simp add: utf8_valid.simps)

lemma target_features_ascii: "c \<in> set target_features \<Longrightarrow> c < 128"
  by (auto simp: target_features_def)

lemma ascii_decode_valid:
  "\<forall>c \<in> set (utf8_decode_replace bs). c < 128 \<Longrightarrow> utf8_valid bs"
proof (induction bs rule: utf8_decode_replace.induct)
  case (1 bs)
  show ?case
  proof (cases "bs = []")
    case True
    then show ?thesis by (simp add: utf8_valid_Nil)
  next
    case False
    obtain r n where one: "utf8_decode_one bs = (r, n)" by (cases "utf8_decode_one bs")
    show ?thesis
    proof (cases r)
      case None
      with False one have "utf8_decode_replace bs = 0xFFFD # utf8_decode_replace (drop n bs)"
        by (simp add: utf8_decode_replace.simps [of bs])
      with "1.prems" show ?thesis by simp
    next
      case (Some cp)
      with False one have eq: "utf8_decode_replace bs = cp # utf8_decode_replace (drop n bs)"
        by (simp add: utf8_decode_replace.simps [of bs])
      with "1.prems" have "\<forall>c \<in> set (utf8_decode_replace (drop n bs)). c < 128" by simp
      then have "utf8_valid (drop n bs)"
        by (rule "1.IH"(2) [OF False one [symmetric] Some])
      with False one Some show ?thesis by (simp add: utf8_valid.simps [of bs])
    qed
  qed
qed

lemma invalid_name_not_target: "\<not> utf8_valid bs \<Longrightarrow> utf8_decode_replace bs \<noteq> target_features"
  using ascii_decode_valid [of bs] target_features_ascii by metis

lemma strip_step_appends:
  "strip_step data s = Inr s' \<Longrightarrow> \<exists>ys. out s' = out s @ ys"
  by (auto simp: strip_step_def Let_def split: if_splits sum.splits prod.splits)

lemma strip_loop_appends:
  "strip_loop data s = Inr t \<Longrightarrow> \<exists>ys. out t = out s @ ys"
proof (induction data s rule: strip_loop.induct)
  case (1 data s)
  show ?case
  proof (cases "pos s < length data")
    case False
    with "1.prems" show ?thesis by (simp add: strip_loop_done)
  next
    case True
    show ?thesis
    proof (cases "strip_step data s")
      case (Inl e)
      with True "1.prems" show ?thesis by (simp add: strip_loop_fail)
    next
      case (Inr s')
      with True "1.prems" have "strip_loop data s' = Inr t" by (simp add: strip_loop_step)
      from "1.IH" [OF True Inr this] obtain ys where "out t = out s' @ ys" by blast
      moreover from strip_step_appends [OF Inr] obtain zs where "out s' = out s @ zs" by blast
      ultimately show ?thesis by simp
    qed
  qed
qed

text \<open>
  One round of the loop on a custom section whose name bytes are not valid UTF-8: the round
  does not fail and does not strip. The cursor moves to the section end, the span is appended
  to the output, nothing is logged, and the pass goes on from there.
\<close>

lemma undecodable_name_round:
  assumes "take 4 data = magic" and "reach data s" and "pos s < length data"
    and "data ! pos s = 0"
    and "read_leb128 data (pos s + 1) = Inr (section_size, leb_len)"
    and "read_leb128 data (pos s + 1 + leb_len) = Inr (name_len, name_leb_len)"
    and "name_start = pos s + 1 + leb_len + name_leb_len"
    and "\<not> utf8_valid (map unat (bytes_slice data name_start (name_start + name_len)))"
    and "section_end = pos s + 1 + leb_len + section_size"
    and "s' = s\<lparr>pos := section_end, out := out s @ bytes_slice data (pos s) section_end\<rparr>"
  shows "strip_step data s = Inr s' \<and> reach data s' \<and>
         main data = (case strip_loop data s' of Inl e \<Rightarrow> Inl e | Inr t \<Rightarrow> Inr (finish t)) \<and>
         (\<forall>r. main data = Inr r \<longrightarrow>
            (\<exists>ys. out_file r = out s @ bytes_slice data (pos s) section_end @ ys))"
proof -
  have "utf8_decode_replace (map unat (bytes_slice data name_start (name_start + name_len)))
          \<noteq> target_features"
    by (rule invalid_name_not_target [OF assms(8)])
  with assms(3-7,9,10) have step: "strip_step data s = Inr s'"
    by (simp add: strip_step_def Let_def)
  have r: "reach data s'" by (rule reach_step [OF assms(2,3) step])
  have m: "main data = (case strip_loop data s' of Inl e \<Rightarrow> Inl e | Inr t \<Rightarrow> Inr (finish t))"
    by (rule main_reach [OF assms(1) r])
  have "\<forall>r. main data = Inr r \<longrightarrow>
            (\<exists>ys. out_file r = out s @ bytes_slice data (pos s) section_end @ ys)"
  proof (intro allI impI)
    fix r assume "main data = Inr r"
    with m obtain t where t: "strip_loop data s' = Inr t" "r = finish t"
      by (auto split: sum.splits)
    from strip_loop_appends [OF t(1)] obtain ys where "out t = out s' @ ys" by blast
    with t(2) assms(10) show "\<exists>ys. out_file r = out s @ bytes_slice data (pos s) section_end @ ys"
      by (simp add: finish_def)
  qed
  with step r m show ?thesis by blast
qed

definition bad_name_section :: "byte list" where
  "bad_name_section = [0x00, 0x03, 0x01, 0xFF, 0xAA]"

text \<open>
  Claim C9 (amended). For a well-formed module in which the name length of every custom
  section can be decoded, and which contains a custom section whose name bytes are not valid
  UTF-8, the pass does not abort. That section is not taken for \<open>target_features\<close>: its
  span stands verbatim in the output, after the kept sections that precede it and before the
  kept sections that follow it, and no \<open>Stripped\<close> line is printed for it.
\<close>

theorem undecodable_name_is_kept:
  assumes "well_formed data" and "sections data 8 = Some secs"
    and "list_all (name_length_readable data) secs"
    and "secs = before @ sp # after"
    and "data ! fst sp = 0"
    and "read_leb128 data (fst sp + 1) = Inr (section_size, leb_len)"
    and "read_leb128 data (fst sp + 1 + leb_len) = Inr (name_len, name_leb_len)"
    and "name_start = fst sp + 1 + leb_len + name_leb_len"
    and "\<not> utf8_valid (map unat (bytes_slice data name_start (name_start + name_len)))"
  shows "\<not> is_target data sp \<and>
         main data =
           Inr \<lparr>out_file = take 8 data @
                   concat (map (span_bytes data) (filter (\<lambda>sp. \<not> is_target data sp) before)) @
                   span_bytes data sp @
                   concat (map (span_bytes data) (filter (\<lambda>sp. \<not> is_target data sp) after)),
                stderr = map stripped_message (filter (is_target data) before) @
                   map stripped_message (filter (is_target data) after) @
                   (if filter (is_target data) before = [] \<and> filter (is_target data) after = []
                    then [NoSectionWarning] else [])\<rparr>"
proof -
  from assms(1) have m: "take 4 data = magic" by (simp add: well_formed_def)
  have "sp \<in> set secs" using assms(4) by simp
  from sections_bounds [OF assms(2) this] have lt: "fst sp < length data" by simp
  have "utf8_decode_replace (map unat (bytes_slice data name_start (name_start + name_len)))
          \<noteq> target_features"
    by (rule invalid_name_not_target [OF assms(9)])
  with lt assms(5-8) have nt: "\<not> is_target data sp"
    by (simp add: is_target_def section_name_def)
  have kept: "filter (\<lambda>sp. \<not> is_target data sp) secs =
      filter (\<lambda>sp. \<not> is_target data sp) before @ sp #
      filter (\<lambda>sp. \<not> is_target data sp) after"
    using nt by (simp add: assms(4))
  have gone: "filter (is_target data) secs =
      filter (is_target data) before @ filter (is_target data) after"
    using nt by (simp add: assms(4))
  from main_sections [OF m assms(2,3)] nt show ?thesis
    unfolding kept gone by simp
qed

theorem undecodable_name_is_kept_witness:
  "well_formed (example_header @ type_section @ bad_name_section @ other_section) \<and>
   sections (example_header @ type_section @ bad_name_section @ other_section) 8 =
     Some ([(8, 12)] @ (12, 17) # [(17, 26)]) \<and>
   list_all (name_length_readable (example_header @ type_section @ bad_name_section @ other_section))
     ([(8, 12)] @ (12, 17) # [(17, 26)]) \<and>
   (example_header @ type_section @ bad_name_section @ other_section) ! 12 = 0 \<and>
   read_leb128 (example_header @ type_section @ bad_name_section @ other_section) 13 = Inr (3, 1) \<and>
   read_leb128 (example_header @ type_section @ bad_name_section @ other_section) 14 = Inr (1, 1) \<and>
   \<not> utf8_valid (map unat
       (bytes_slice (example_header @ type_section @ bad_name_section @ other_section) 15 16)) \<and>
   \<not> is_target (example_header @ type_section @ bad_name_section @ other_section) (12, 17) \<and>
   main (example_header @ type_section @ bad_name_section @ other_section) =
     Inr \<lparr>out_file = example_header @ type_section @ bad_name_section @ other_section,
          stderr = [NoSectionWarning]\<rparr>"
proof -
  let ?m = "example_header @ type_section @ bad_name_section @ other_section"
  let ?secs = "[(8, 12)] @ (12, 17) # [(17::nat, 26::nat)]"
  have s: "sections ?m 8 = Some ?secs"
    by (simp add: example_defs bad_name_section_def sections.simps read_leb128_def
        read_leb128_loop.simps)
  have w: "well_formed ?m"
    unfolding well_formed_def s by (simp add: example_defs magic_def)
  have r: "list_all (name_length_readable ?m) ?secs"
    by (simp add: example_defs bad_name_section_def name_length_readable_def section_name_def
        read_leb128_def read_leb128_loop.simps)
  have d: "?m ! fst (12::nat, 17::nat) = 0" by (simp add: example_defs bad_name_section_def)
  have e: "read_leb128 ?m (fst (12::nat, 17::nat) + 1) = Inr (3, 1)"
    by (simp add: example_defs bad_name_section_def read_leb128_def read_leb128_loop.simps)
  have f: "read_leb128 ?m (fst (12::nat, 17::nat) + 1 + 1) = Inr (1, 1)"
    by (simp add: example_defs bad_name_section_def read_leb128_def read_leb128_loop.simps)
  have g: "(15::nat) = fst (12::nat, 17::nat) + 1 + 1 + 1" by simp
  have h: "\<not> utf8_valid (map unat (bytes_slice ?m 15 (15 + 1)))"
    by (simp add: example_defs bad_name_section_def bytes_slice_def utf8_valid.simps)
  have t: "\<not> is_target ?m (8, 12)" "\<not> is_target ?m (17, 26)"
    by (simp_all add: example_defs bad_name_section_def eval_defs)
  have sp: "take 8 ?m @ span_bytes ?m (8, 12) @ span_bytes ?m (12, 17) @ span_bytes ?m (17, 26) = ?m"
    by (simp add: example_defs bad_name_section_def span_bytes_def bytes_slice_def)
  from undecodable_name_is_kept [OF w s r refl d e f g h] t sp
  have "\<not> is_target ?m (12, 17) \<and>
        main ?m = Inr \<lparr>out_file = ?m, stderr = [NoSectionWarning]\<rparr>"
    by simp
  moreover have "?m ! 12 = 0" "read_leb128 ?m 13 = Inr (3, 1)" "read_leb128 ?m 14 = Inr (1, 1)"
    "\<not> utf8_valid (map unat (bytes_slice ?m 15 16))"
    using d e f h by simp_all
  ultimately show ?thesis using w s r by simp
qed

text \<open>
  Claim C9 as stated fails: the module below is well-formed and its first section is a custom
  section whose name byte \<open>FF\<close> is not valid UTF-8. That section is copied, but the pass
  then raises \<open>IndexError\<close> on the last section, whose payload is empty, and writes no
  output.
\<close>

theorem undecodable_name_is_kept_counterexample:
  "well_formed (example_header @ bad_name_section @ empty_custom_section) \<and>
   sections (example_header @ bad_name_section @ empty_custom_section) 8 = Some [(8, 13), (13, 15)] \<and>
   (example_header @ bad_name_section @ empty_custom_section) ! 8 = 0 \<and>
   read_leb128 (example_header @ bad_name_section @ empty_custom_section) 9 = Inr (3, 1) \<and>
   read_leb128 (example_header @ bad_name_section @ empty_custom_section) 10 = Inr (1, 1) \<and>
   \<not> utf8_valid (map unat
       (bytes_slice (example_header @ bad_name_section @ empty_custom_section) 11 12)) \<and>
   main (example_header @ bad_name_section @ empty_custom_section) = Inl IndexError"
  by (simp add: example_defs bad_name_section_def eval_defs)

section \<open>Names read beyond the payload\<close>

text \<open>A section with id 15 whose size byte and first payload bytes spell \<open>target_features\<close>
  when read from its id byte on: \<open>0x0F\<close> is the name length 15, \<open>0x74\<close> the letter t and
  the declared size 116.\<close>

definition spelling_section :: "byte list" where
  "spelling_section =
     [0x0F, 0x74, 0x61, 0x72, 0x67, 0x65, 0x74, 0x5F, 0x66, 0x65, 0x61, 0x74, 0x75, 0x72, 0x65,
      0x73] @ replicate 102 0x00"

text \<open>
  Claim C10. The name length and the name of a custom section are read from the payload start
  with no regard to the payload end. The custom section \<open>00 00\<close> has an empty payload; in the
  three well-formed modules below it is stripped when the bytes of the following section spell
  the target name, kept when they do not, and makes the pass fail when it is the last section.
\<close>

theorem name_read_leaves_payload:
  "well_formed (example_header @ empty_custom_section @ spelling_section) \<and>
   sections (example_header @ empty_custom_section @ spelling_section) 8 = Some [(8, 10), (10, 128)] \<and>
   section_name (example_header @ empty_custom_section @ spelling_section) 8 = Some target_features \<and>
   main (example_header @ empty_custom_section @ spelling_section) =
     Inr \<lparr>out_file = example_header @ spelling_section, stderr = [Stripped 2]\<rparr> \<and>
   well_formed (example_header @ empty_custom_section @ type_section) \<and>
   sections (example_header @ empty_custom_section @ type_section) 8 = Some [(8, 10), (10, 14)] \<and>
   section_name (example_header @ empty_custom_section @ type_section) 8 = Some [0x02] \<and>
   main (example_header @ empty_custom_section @ type_section) =
     Inr \<lparr>out_file = example_header @ empty_custom_section @ type_section,
          stderr = [NoSectionWarning]\<rparr> \<and>
   well_formed (example_header @ empty_custom_section) \<and>
   sections (example_header @ empty_custom_section) 8 = Some [(8, 10)] \<and>
   section_name (example_header @ empty_custom_section) 8 = None \<and>
   main (example_header @ empty_custom_section) = Inl IndexError"
proof -
  let ?a = "example_header @ empty_custom_section @ spelling_section"
  let ?b = "example_header @ empty_custom_section @ type_section"
  let ?c = "example_header @ empty_custom_section"
  have a1: "sections ?a 8 = Some [(8, 10), (10, 128)]"
    by (simp add: example_defs spelling_section_def sections.simps read_leb128_def
        read_leb128_loop.simps nth_append)
  have a2: "well_formed ?a"
    unfolding well_formed_def a1 by (simp add: example_defs magic_def)
  have a3: "section_name ?a 8 = Some target_features"
    by (simp add: example_defs spelling_section_def eval_defs nth_append)
  have a4: "main ?a = Inr \<lparr>out_file = example_header @ spelling_section, stderr = [Stripped 2]\<rparr>"
    by (simp add: example_defs spelling_section_def eval_defs nth_append)
  have b1: "sections ?b 8 = Some [(8, 10), (10, 14)]"
    by (simp add: example_defs sections.simps read_leb128_def read_leb128_loop.simps)
  have b2: "well_formed ?b"
    unfolding well_formed_def b1 by (simp add: example_defs magic_def)
  have b3: "section_name ?b 8 = Some [0x02]"
    by (simp add: example_defs eval_defs)
  have b4: "main ?b = Inr \<lparr>out_file = ?b, stderr = [NoSectionWarning]\<rparr>"
    by (simp add: example_defs eval_defs)
  have c1: "sections ?c 8 = Some [(8, 10)]"
    by (simp add: example_defs sections.simps read_leb128_def read_leb128_loop.simps)
  have c2: "well_formed ?c"
    unfolding well_formed_def c1 by (simp add: example_defs magic_def)
  have c3: "section_name ?c 8 = None"
    by (simp add: example_defs eval_defs)
  have c4: "main ?c = Inl IndexError"
    by (simp add: example_defs eval_defs)
  from a1 a2 a3 a4 b1 b2 b3 b4 c1 c2 c3 c4 show ?thesis by blast
qed

section \<open>Modules whose names lie inside their payloads\<close>

text \<open>The name field of a custom section (the name length and the name bytes) lies within
  the section's own span.\<close>

definition name_in_payload :: "byte list \<Rightarrow> nat \<times> nat \<Rightarrow> bool" where
  "name_in_payload data sp =
     (if data ! fst sp = 0 then
        (case read_leb128 data (fst sp + 1) of
           Inl e \<Rightarrow> False
         | Inr (payload_size, n) \<Rightarrow>
             (case read_leb128 data (fst sp + 1 + n) of
                Inl e \<Rightarrow> False
              | Inr (name_length, m) \<Rightarrow> fst sp + 1 + n + m + name_length \<le> snd sp))
      else True)"

text \<open>A byte string that is exactly one section, name field included.\<close>

definition whole_section :: "byte list \<Rightarrow> bool" where
  "whole_section b =
     (b \<noteq> [] \<and>
      (case read_leb128 b 1 of
         Inl e \<Rightarrow> False
       | Inr (payload_size, n) \<Rightarrow>
           length b = 1 + n + payload_size \<and> name_in_payload b (0, length b)))"

text \<open>A section, taken by itself, is a custom section named \<open>target_features\<close>.\<close>

definition names_target :: "byte list \<Rightarrow> bool" where
  "names_target b = (section_name b 0 = Some target_features)"

text \<open>The spans of byte strings laid end to end from offset \<open>p\<close> on.\<close>

fun layout :: "nat \<Rightarrow> byte list list \<Rightarrow> (nat \<times> nat) list" where
  "layout p [] = []"
| "layout p (b # bs) = (p, p + length b) # layout (p + length b) bs"

lemma whole_sectionD:
  assumes "whole_section b"
  obtains payload_size n where "b \<noteq> []" "read_leb128 b 1 = Inr (payload_size, n)"
    "length b = 1 + n + payload_size" "name_in_payload b (0, length b)"
  using assms by (auto simp: whole_section_def split: sum.splits)

lemma sections_unfold:
  assumes "p < length data" and "read_leb128 data (p + 1) = Inr (payload_size, n)"
    and "e = p + 1 + n + payload_size" and "e \<le> length data"
  shows "sections data p = map_option ((#) (p, e)) (sections data e)"
  using assms by (subst sections.simps) simp

lemma read_leb128_inside:
  assumes "read_leb128 b k = Inr (v, n)"
  shows "read_leb128 (pre @ b @ post) (length pre + k) = Inr (v, n)"
  using read_leb128_shift [of pre "b @ post" k] read_leb128_extend [OF assms, of post] by simp

lemma bytes_slice_inside:
  assumes "j \<le> length b"
  shows "bytes_slice (pre @ b @ post) (length pre + i) (length pre + j) = bytes_slice b i j"
  using assms by (simp add: bytes_slice_def)

lemma section_name_inside:
  assumes "whole_section b"
  shows "section_name (pre @ b @ post) (length pre) = section_name b 0"
proof -
  from assms obtain payload_size n where
    ne: "b \<noteq> []" and rd: "read_leb128 b 1 = Inr (payload_size, n)" and
    len: "length b = 1 + n + payload_size" and nm: "name_in_payload b (0, length b)"
    by (rule whole_sectionD)
  let ?d = "pre @ b @ post"
  have id: "?d ! length pre = b ! 0" using ne by (simp add: nth_append)
  have lt: "length pre < length ?d" using ne by simp
  have rd': "read_leb128 ?d (length pre + 1) = Inr (payload_size, n)"
    by (rule read_leb128_inside [OF rd])
  show ?thesis
  proof (cases "b ! 0 = 0")
    case False
    with id ne show ?thesis by (simp add: section_name_def)
  next
    case True
    from nm True rd have "\<exists>name_length m. read_leb128 b (1 + n) = Inr (name_length, m) \<and>
        1 + n + m + name_length \<le> length b"
      by (auto simp: name_in_payload_def split: sum.splits)
    then obtain name_length m where
      nl0: "read_leb128 b (1 + n) = Inr (name_length, m)" and
      inside: "1 + n + m + name_length \<le> length b"
      by blast
    have nl': "read_leb128 ?d (length pre + (1 + n)) = Inr (name_length, m)"
      by (rule read_leb128_inside [OF nl0])
    have sl: "bytes_slice ?d (length pre + (1 + n + m)) (length pre + (1 + n + m + name_length)) =
        bytes_slice b (1 + n + m) (1 + n + m + name_length)"
      using inside by (intro bytes_slice_inside) simp
    have "section_name ?d (length pre) =
        Some (utf8_decode_replace (map unat (bytes_slice ?d (length pre + 1 + n + m)
          (length pre + 1 + n + m + name_length))))"
      using lt id True rd' nl' by (simp add: section_name_def add.assoc)
    also have "\<dots> = Some (utf8_decode_replace (map unat
        (bytes_slice b (1 + n + m) (1 + n + m + name_length))))"
      using sl by (simp add: add.assoc)
    also have "\<dots> = section_name b 0"
      using ne True rd nl0 by (simp add: section_name_def)
    finally show ?thesis .
  qed
qed

lemma whole_section_named:
  assumes "whole_section b" and "b ! 0 = 0"
  shows "section_name b 0 \<noteq> None"
proof -
  from assms(1) obtain payload_size n where
    ne: "b \<noteq> []" and rd: "read_leb128 b 1 = Inr (payload_size, n)" and
    nm: "name_in_payload b (0, length b)"
    by (rule whole_sectionD)
  from nm assms(2) rd have "\<exists>name_length m. read_leb128 b (1 + n) = Inr (name_length, m)"
    by (auto simp: name_in_payload_def split: sum.splits)
  then obtain name_length m where "read_leb128 b (1 + n) = Inr (name_length, m)" by blast
  with ne assms(2) rd show ?thesis by (simp add: section_name_def)
qed

lemma sections_layout:
  assumes "list_all whole_section bs"
  shows "sections (pre @ concat bs) (length pre) = Some (layout (length pre) bs)"
  using assms
proof (induction bs arbitrary: pre)
  case Nil
  show ?case by (simp add: sections_done)
next
  case (Cons b bs)
  from Cons.prems have w: "whole_section b" and ws: "list_all whole_section bs" by simp_all
  from w obtain payload_size n where
    ne: "b \<noteq> []" and rd: "read_leb128 b 1 = Inr (payload_size, n)" and
    len: "length b = 1 + n + payload_size"
    by (rule whole_sectionD)
  let ?d = "pre @ concat (b # bs)"
  have d: "?d = pre @ b @ concat bs" by simp
  have lt: "length pre < length ?d" using ne by simp
  have rd': "read_leb128 ?d (length pre + 1) = Inr (payload_size, n)"
    unfolding d by (rule read_leb128_inside [OF rd])
  have e: "length pre + 1 + n + payload_size = length (pre @ b)" using len by simp
  have le: "length (pre @ b) \<le> length ?d" by simp
  have rest: "sections ?d (length (pre @ b)) = Some (layout (length (pre @ b)) bs)"
    using Cons.IH [OF ws, of "pre @ b"] by simp
  have "sections ?d (length pre) =
      map_option ((#) (length pre, length (pre @ b))) (sections ?d (length (pre @ b)))"
    using lt rd' e [symmetric] le by (rule sections_unfold)
  with rest show ?case by simp
qed

lemma names_layout:
  assumes "list_all whole_section bs"
  shows "map (\<lambda>sp. section_name (pre @ concat bs) (fst sp)) (layout (length pre) bs) =
         map (\<lambda>b. section_name b 0) bs"
  using assms
proof (induction bs arbitrary: pre)
  case Nil
  show ?case by simp
next
  case (Cons b bs)
  from Cons.prems have w: "whole_section b" and ws: "list_all whole_section bs" by simp_all
  have hd: "section_name (pre @ concat (b # bs)) (length pre) = section_name b 0"
    using section_name_inside [OF w, of pre "concat bs"] by simp
  have tl: "map (\<lambda>sp. section_name (pre @ concat (b # bs)) (fst sp)) (layout (length pre + length b) bs) =
      map (\<lambda>b. section_name b 0) bs"
    using Cons.IH [OF ws, of "pre @ b"] by simp
  from hd tl show ?case by simp
qed

lemma ids_layout:
  assumes "list_all whole_section bs"
  shows "map (\<lambda>sp. (pre @ concat bs) ! fst sp) (layout (length pre) bs) = map (\<lambda>b. b ! 0) bs"
  using assms
proof (induction bs arbitrary: pre)
  case Nil
  show ?case by simp
next
  case (Cons b bs)
  from Cons.prems have w: "whole_section b" and ws: "list_all whole_section bs" by simp_all
  from w have ne: "b \<noteq> []" by (rule whole_sectionD)
  have hd: "(pre @ concat (b # bs)) ! length pre = b ! 0" using ne by (simp add: nth_append)
  have tl: "map (\<lambda>sp. (pre @ concat (b # bs)) ! fst sp) (layout (length pre + length b) bs) =
      map (\<lambda>b. b ! 0) bs"
    using Cons.IH [OF ws, of "pre @ b"] by simp
  from hd tl show ?case by simp
qed

lemma main_whole_sections:
  assumes "length pre = 8" and "take 4 pre = magic" and "list_all whole_section bs"
    and "list_all (\<lambda>b. \<not> names_target b) bs"
  shows "main (pre @ concat bs) = Inr \<lparr>out_file = pre @ concat bs, stderr = [NoSectionWarning]\<rparr>"
proof -
  let ?d = "pre @ concat bs"
  let ?secs = "layout 8 bs"
  have m: "take 4 ?d = magic" using assms(1,2) by simp
  have s: "sections ?d 8 = Some ?secs"
    using sections_layout [OF assms(3), of pre] assms(1) by simp
  have names: "map (\<lambda>sp. section_name ?d (fst sp)) ?secs = map (\<lambda>b. section_name b 0) bs"
    using names_layout [OF assms(3), of pre] assms(1) by simp
  have ids: "map (\<lambda>sp. ?d ! fst sp) ?secs = map (\<lambda>b. b ! 0) bs"
    using ids_layout [OF assms(3), of pre] assms(1) by simp
  have len: "length ?secs = length bs"
    using names by (metis length_map)
  have at: "\<And>i. i < length bs \<Longrightarrow> section_name ?d (fst (?secs ! i)) = section_name (bs ! i) 0 \<and>
      ?d ! fst (?secs ! i) = (bs ! i) ! 0"
  proof -
    fix i assume i: "i < length bs"
    from names have "map (\<lambda>sp. section_name ?d (fst sp)) ?secs ! i = map (\<lambda>b. section_name b 0) bs ! i"
      by simp
    moreover from ids have "map (\<lambda>sp. ?d ! fst sp) ?secs ! i = map (\<lambda>b. b ! 0) bs ! i"
      by simp
    ultimately show "section_name ?d (fst (?secs ! i)) = section_name (bs ! i) 0 \<and>
      ?d ! fst (?secs ! i) = (bs ! i) ! 0"
      using i len by simp
  qed
  have each: "\<And>sp. sp \<in> set ?secs \<Longrightarrow> name_length_readable ?d sp \<and> \<not> is_target ?d sp"
  proof -
    fix sp assume "sp \<in> set ?secs"
    then obtain i where i: "i < length ?secs" "sp = ?secs ! i" by (metis in_set_conv_nth)
    with len have ib: "i < length bs" by simp
    then have b: "bs ! i \<in> set bs" by simp
    with assms(3,4) have w: "whole_section (bs ! i)" and nt: "\<not> names_target (bs ! i)"
      by (simp_all add: list_all_iff)
    from at [OF ib] i(2) have nm: "section_name ?d (fst sp) = section_name (bs ! i) 0"
      and id: "?d ! fst sp = (bs ! i) ! 0" by simp_all
    have "name_length_readable ?d sp"
      using whole_section_named [OF w] nm id by (simp add: name_length_readable_def)
    moreover have "\<not> is_target ?d sp"
      using nt nm by (simp add: is_target_def names_target_def)
    ultimately show "name_length_readable ?d sp \<and> \<not> is_target ?d sp" by simp
  qed
  have r: "list_all (name_length_readable ?d) ?secs" using each by (simp add: list_all_iff)
  have none: "filter (is_target ?d) ?secs = []" using each by (simp add: filter_empty_conv)
  have all: "filter (\<lambda>sp. \<not> is_target ?d sp) ?secs = ?secs" using each by simp
  have "take 8 ?d @ concat (map (span_bytes ?d) ?secs) = ?d"
    by (simp only: sections_concat [OF s] append_take_drop_id)
  with main_sections [OF m s r] none all show ?thesis by simp
qed

section \<open>The spans of a framed module are whole sections\<close>

lemma span_split:
  assumes "p \<le> e" and "e \<le> length data"
  shows "data = take p data @ bytes_slice data p e @ drop e data"
  using assms by (simp add: bytes_slice_def drop_take_drop)

lemma read_leb128_span:
  assumes "p \<le> e" and "e \<le> length data"
    and "read_leb128 data (p + k) = Inr (v, n)" and "p + k + n \<le> e"
  shows "read_leb128 (bytes_slice data p e) k = Inr (v, n)"
proof -
  let ?b = "bytes_slice data p e"
  have lb: "length ?b = e - p" using assms(1,2) by (simp add: bytes_slice_def)
  have "read_leb128 (take p data @ (?b @ drop e data)) (length (take p data) + k) = Inr (v, n)"
    using span_split [OF assms(1,2)] assms(1,2,3) by simp
  then have "read_leb128 (?b @ drop e data) k = Inr (v, n)"
    by (simp only: read_leb128_shift)
  moreover have "k + n \<le> length ?b" using lb assms(4) by simp
  ultimately show ?thesis by (rule read_leb128_restrict)
qed

lemma span_whole_section:
  assumes "p < length data" and "read_leb128 data (p + 1) = Inr (payload_size, n)"
    and "e = p + 1 + n + payload_size" and "e \<le> length data"
    and "name_in_payload data (p, e)"
  shows "whole_section (bytes_slice data p e)"
proof -
  let ?b = "bytes_slice data p e"
  have pe: "p \<le> e" using assms(3) by simp
  have lb: "length ?b = 1 + n + payload_size" using assms(3,4) by (simp add: bytes_slice_def)
  then have ne: "?b \<noteq> []" by auto
  have id: "?b ! 0 = data ! p" using assms(3,4) by (simp add: bytes_slice_def)
  have rd: "read_leb128 ?b 1 = Inr (payload_size, n)"
    using assms(2,3) by (intro read_leb128_span [OF pe assms(4)]) simp_all
  have nm: "name_in_payload ?b (0, length ?b)"
  proof (cases "data ! p = 0")
    case False
    with id show ?thesis by (simp add: name_in_payload_def)
  next
    case True
    with assms(2,5) have "\<exists>name_length m. read_leb128 data (p + 1 + n) = Inr (name_length, m) \<and>
        p + 1 + n + m + name_length \<le> e"
      by (auto simp: name_in_payload_def split: sum.splits)
    then obtain name_length m where
      nl: "read_leb128 data (p + 1 + n) = Inr (name_length, m)" and
      inside: "p + 1 + n + m + name_length \<le> e"
      by blast
    have "read_leb128 ?b (1 + n) = Inr (name_length, m)"
      using nl inside by (intro read_leb128_span [OF pe assms(4)]) (simp_all add: add.assoc)
    moreover have "1 + n + m + name_length \<le> length ?b"
      using inside assms(3) lb by simp
    ultimately show ?thesis using True id rd by (simp add: name_in_payload_def)
  qed
  from ne rd lb nm show ?thesis by (simp add: whole_section_def)
qed

lemma sections_whole:
  assumes "sections data p = Some secs" and "list_all (name_in_payload data) secs"
  shows "list_all whole_section (map (span_bytes data) secs) \<and>
         layout p (map (span_bytes data) secs) = (if p < length data then secs else [])"
  using assms
proof (induction data p arbitrary: secs rule: sections.induct)
  case (1 data p)
  show ?case
  proof (cases "p < length data")
    case False
    with "1.prems"(1) show ?thesis by (simp add: sections_done)
  next
    case True
    from sections_step [OF True "1.prems"(1)]
    obtain payload_size n rest where
      rd: "read_leb128 data (p + 1) = Inr (payload_size, n)" and
      le: "p + 1 + n + payload_size \<le> length data" and
      rest: "sections data (p + 1 + n + payload_size) = Some rest" and
      secs: "secs = (p, p + 1 + n + payload_size) # rest"
      by blast
    let ?e = "p + 1 + n + payload_size"
    from "1.prems"(2) secs have nm: "name_in_payload data (p, ?e)"
      and nms: "list_all (name_in_payload data) rest" by simp_all
    have w: "whole_section (bytes_slice data p ?e)"
      by (rule span_whole_section [OF True rd refl le nm])
    have lb: "p + length (bytes_slice data p ?e) = ?e" using le by (simp add: bytes_slice_def)
    have ih: "list_all whole_section (map (span_bytes data) rest) \<and>
         layout ?e (map (span_bytes data) rest) = (if ?e < length data then rest else [])"
      by (rule "1.IH" [OF True rd refl refl le rest nms])
    have rest_nil: "\<not> ?e < length data \<Longrightarrow> rest = []"
      using rest by (simp add: sections_done)
    from ih rest_nil have lay: "layout ?e (map (span_bytes data) rest) = rest"
      by (cases "?e < length data") simp_all
    have "layout p (map (span_bytes data) secs) =
        (p, p + length (bytes_slice data p ?e)) #
        layout (p + length (bytes_slice data p ?e)) (map (span_bytes data) rest)"
      unfolding secs by (simp add: span_bytes_pair)
    then have "layout p (map (span_bytes data) secs) = secs"
      unfolding lb lay secs .
    moreover have "list_all whole_section (map (span_bytes data) secs)"
      unfolding secs using w ih by (simp add: span_bytes_pair)
    ultimately show ?thesis using True by simp
  qed
qed

lemma name_in_payload_readable:
  assumes "name_in_payload data sp" and "fst sp < length data"
    and "read_leb128 data (fst sp + 1) = Inr (payload_size, n)"
  shows "name_length_readable data sp"
  using assms
  by (auto simp: name_in_payload_def name_length_readable_def section_name_def split: sum.splits)

lemma sections_readable:
  assumes "sections data p = Some secs" and "list_all (name_in_payload data) secs"
  shows "list_all (name_length_readable data) secs"
  using assms
proof (induction data p arbitrary: secs rule: sections.induct)
  case (1 data p)
  show ?case
  proof (cases "p < length data")
    case False
    with "1.prems"(1) show ?thesis by (simp add: sections_done)
  next
    case True
    from sections_step [OF True "1.prems"(1)]
    obtain payload_size n rest where
      rd: "read_leb128 data (p + 1) = Inr (payload_size, n)" and
      le: "p + 1 + n + payload_size \<le> length data" and
      rest: "sections data (p + 1 + n + payload_size) = Some rest" and
      secs: "secs = (p, p + 1 + n + payload_size) # rest"
      by blast
    from "1.prems"(2) secs have nm: "name_in_payload data (p, p + 1 + n + payload_size)"
      and nms: "list_all (name_in_payload data) rest" by simp_all
    have "name_length_readable data (p, p + 1 + n + payload_size)"
      using nm True rd by (intro name_in_payload_readable) simp_all
    moreover have "list_all (name_length_readable data) rest"
      by (rule "1.IH" [OF True rd refl refl le rest nms])
    ultimately show ?thesis using secs by simp
  qed
qed

text \<open>
  Claim C7 (amended). For a well-formed module in which the name field of every custom section
  (name length and name bytes) lies within the section's own span, the pass succeeds, and
  running it again on its output succeeds, returns that output byte for byte, and removes
  nothing: the only diagnostic of the second run is the warning that no section was found.
\<close>

theorem strip_is_idempotent:
  assumes "well_formed data" and "sections data 8 = Some secs"
    and "list_all (name_in_payload data) secs"
  shows "\<exists>r. main data = Inr r \<and>
           main (out_file r) = Inr \<lparr>out_file = out_file r, stderr = [NoSectionWarning]\<rparr>"
proof -
  let ?kept = "filter (\<lambda>sp. \<not> is_target data sp) secs"
  let ?gone = "filter (is_target data) secs"
  let ?out = "take 8 data @ concat (map (span_bytes data) ?kept)"
  let ?r = "\<lparr>out_file = ?out,
             stderr = map stripped_message ?gone @ (if ?gone = [] then [NoSectionWarning] else [])\<rparr>"
  from assms(1) have m: "take 4 data = magic" by (simp add: well_formed_def)
  have readable: "list_all (name_length_readable data) secs"
    by (rule sections_readable [OF assms(2,3)])
  have first: "main data = Inr ?r" by (rule main_sections [OF m assms(2) readable])
  have second: "main ?out = Inr \<lparr>out_file = ?out, stderr = [NoSectionWarning]\<rparr>"
  proof (cases "8 < length data")
    case False
    then have "secs = []" using assms(2) by (simp add: sections_done)
    with False first show ?thesis by simp
  next
    case True
    let ?pre = "take 8 data"
    let ?bs = "map (span_bytes data) secs"
    have lp: "length ?pre = 8" using True by simp
    have mp: "take 4 ?pre = magic" using m by simp
    from sections_whole [OF assms(2,3)] True
    have ws: "list_all whole_section ?bs" and lay: "layout 8 ?bs = secs" by simp_all
    have d: "?pre @ concat ?bs = data"
      by (simp only: sections_concat [OF assms(2)] append_take_drop_id)
    have "map (\<lambda>sp. section_name (?pre @ concat ?bs) (fst sp)) (layout (length ?pre) ?bs) =
        map (\<lambda>b. section_name b 0) ?bs"
      by (rule names_layout [OF ws])
    then have "map (\<lambda>sp. section_name data (fst sp)) secs =
        map (\<lambda>sp. section_name (span_bytes data sp) 0) secs"
      unfolding d lp lay by (simp add: comp_def)
    then have nm: "\<And>sp. sp \<in> set secs \<Longrightarrow>
        section_name data (fst sp) = section_name (span_bytes data sp) 0"
      by simp
    have tg: "\<And>sp. sp \<in> set secs \<Longrightarrow> is_target data sp = names_target (span_bytes data sp)"
      by (simp add: is_target_def names_target_def nm)
    have "?kept = filter (\<lambda>sp. \<not> names_target (span_bytes data sp)) secs"
      by (rule filter_cong) (simp_all add: tg)
    then have kb: "map (span_bytes data) ?kept = filter (\<lambda>b. \<not> names_target b) ?bs"
      by (simp add: filter_map comp_def)
    have w': "list_all whole_section (filter (\<lambda>b. \<not> names_target b) ?bs)"
      using ws by (auto simp: list_all_iff)
    have n': "list_all (\<lambda>b. \<not> names_target b) (filter (\<lambda>b. \<not> names_target b) ?bs)"
      by (simp add: list_all_iff)
    from main_whole_sections [OF lp mp w' n'] show ?thesis
      unfolding kb .
  qed
  from first second show ?thesis by (intro exI [of _ ?r]) simp
qed

theorem strip_is_idempotent_witness:
  "well_formed (example_header @ target_section @ other_section @ target_section) \<and>
   sections (example_header @ target_section @ other_section @ target_section) 8 =
     Some [(8, 28), (28, 37), (37, 57)] \<and>
   list_all (name_in_payload (example_header @ target_section @ other_section @ target_section))
     [(8, 28), (28, 37), (37, 57)] \<and>
   main (example_header @ target_section @ other_section @ target_section) =
     Inr \<lparr>out_file = example_header @ other_section, stderr = [Stripped 20, Stripped 20]\<rparr> \<and>
   main (example_header @ other_section) =
     Inr \<lparr>out_file = example_header @ other_section, stderr = [NoSectionWarning]\<rparr>"
proof -
  let ?m = "example_header @ target_section @ other_section @ target_section"
  have s: "sections ?m 8 = Some [(8, 28), (28, 37), (37, 57)]"
    by (simp add: example_defs sections.simps read_leb128_def read_leb128_loop.simps)
  have w: "well_formed ?m"
    unfolding well_formed_def s by (simp add: example_defs magic_def)
  have n: "list_all (name_in_payload ?m) [(8, 28), (28, 37), (37, 57)]"
    by (simp add: example_defs name_in_payload_def read_leb128_def read_leb128_loop.simps)
  have e: "main ?m = Inr \<lparr>out_file = example_header @ other_section, stderr = [Stripped 20, Stripped 20]\<rparr>"
    by (simp add: example_defs eval_defs)
  from strip_is_idempotent [OF w s n] obtain r where
    "main ?m = Inr r" "main (out_file r) = Inr \<lparr>out_file = out_file r, stderr = [NoSectionWarning]\<rparr>"
    by blast
  with e have "main (example_header @ other_section) =
     Inr \<lparr>out_file = example_header @ other_section, stderr = [NoSectionWarning]\<rparr>"
    by auto
  with w s n e show ?thesis by blast
qed

text \<open>
  Claim C7 as stated fails: the module below is well-formed and the first run succeeds,
  stripping the last section. The custom section \<open>00 00\<close> is then the last one of the
  output, and the second run raises \<open>IndexError\<close> when it reads its name length.
\<close>

theorem strip_is_idempotent_counterexample:
  "well_formed (example_header @ empty_custom_section @ target_section) \<and>
   sections (example_header @ empty_custom_section @ target_section) 8 = Some [(8, 10), (10, 30)] \<and>
   main (example_header @ empty_custom_section @ target_section) =
     Inr \<lparr>out_file = example_header @ empty_custom_section, stderr = [Stripped 20]\<rparr> \<and>
   main (example_header @ empty_custom_section) = Inl IndexError"
  by (simp add: example_defs eval_defs)

section \<open>Matching the target name is matching its bytes\<close>

lemma utf8_decode_one_shape:
  assumes "utf8_decode_one (b0 # bs) = (Some cp, n)"
  shows "(b0 < 0x80 \<and> cp = b0 \<and> n = 1) \<or>
         (0xC2 \<le> b0 \<and> b0 < 0xE0 \<and> (\<exists>b1. cp = (b0 mod 32) * 64 + b1 mod 64)) \<or>
         (0xE0 \<le> b0 \<and> b0 < 0xF0 \<and>
            (\<exists>b1 b2. second_ok b0 b1 \<and> cp = (b0 mod 16) * 4096 + (b1 mod 64) * 64 + b2 mod 64)) \<or>
         (0xF0 \<le> b0 \<and> b0 < 0xF5 \<and>
            (\<exists>b1 b2 b3. second_ok b0 b1 \<and>
               cp = (b0 mod 8) * 262144 + (b1 mod 64) * 4096 + (b2 mod 64) * 64 + b3 mod 64))"
proof (cases "b0 < 0x80")
  case True
  with assms show ?thesis by simp
next
  case a: False
  show ?thesis
  proof (cases "b0 < 0xC2")
    case True
    with a assms show ?thesis by simp
  next
    case b: False
    show ?thesis
    proof (cases "b0 < 0xE0")
      case True
      with a b assms have "\<exists>b1. cp = (b0 mod 32) * 64 + b1 mod 64"
        by (cases bs) (auto split: if_splits)
      with True b show ?thesis by simp
    next
      case c: False
      show ?thesis
      proof (cases "b0 < 0xF0")
        case True
        with a b c assms
        have "\<exists>b1 b2. second_ok b0 b1 \<and> cp = (b0 mod 16) * 4096 + (b1 mod 64) * 64 + b2 mod 64"
          by (simp split: list.splits if_splits) blast
        with True c show ?thesis by simp
      next
        case d: False
        show ?thesis
        proof (cases "b0 < 0xF5")
          case True
          with a b c d assms
          have "\<exists>b1 b2 b3. second_ok b0 b1 \<and>
               cp = (b0 mod 8) * 262144 + (b1 mod 64) * 4096 + (b2 mod 64) * 64 + b3 mod 64"
            by (simp split: list.splits if_splits) blast
          with True d show ?thesis by simp
        next
          case False
          with a b c d assms show ?thesis by simp
        qed
      qed
    qed
  qed
qed

lemma two_byte_big: "0xC2 \<le> b0 \<Longrightarrow> b0 < 0xE0 \<Longrightarrow> 128 \<le> (b0 mod 32) * 64 + b1 mod (64::nat)"
proof -
  assume "0xC2 \<le> b0" "b0 < 0xE0"
  then have "2 \<le> b0 mod 32" by presburger
  then have "128 \<le> (b0 mod 32) * 64" by simp
  then show ?thesis by simp
qed

lemma three_byte_big:
  assumes "0xE0 \<le> b0" and "b0 < 0xF0" and "second_ok b0 b1"
  shows "128 \<le> (b0 mod 16) * 4096 + (b1 mod 64) * 64 + b2 mod (64::nat)"
proof (cases "b0 = 0xE0")
  case True
  with assms(3) have "0xA0 \<le> b1" "b1 < 0xC0" by (simp_all add: second_ok_def is_continuation_def)
  then have "32 \<le> b1 mod 64" by presburger
  then have "128 \<le> (b1 mod 64) * 64" by simp
  then show ?thesis by simp
next
  case False
  with assms(1,2) have "1 \<le> b0 mod 16" by presburger
  then have "128 \<le> (b0 mod 16) * 4096" by simp
  then show ?thesis by simp
qed

lemma four_byte_big:
  assumes "0xF0 \<le> b0" and "b0 < 0xF5" and "second_ok b0 b1"
  shows "128 \<le> (b0 mod 8) * 262144 + (b1 mod 64) * 4096 + (b2 mod 64) * 64 + b3 mod (64::nat)"
proof (cases "b0 = 0xF0")
  case True
  with assms(3) have "0x90 \<le> b1" "b1 < 0xC0" by (simp_all add: second_ok_def is_continuation_def)
  then have "16 \<le> b1 mod 64" by presburger
  then have "128 \<le> (b1 mod 64) * 4096" by simp
  then show ?thesis by simp
next
  case False
  with assms(1,2) have "1 \<le> b0 mod 8" by presburger
  then have "128 \<le> (b0 mod 8) * 262144" by simp
  then show ?thesis by simp
qed

lemma utf8_decode_one_ascii:
  assumes "utf8_decode_one (b0 # bs) = (Some cp, n)" and "cp < 128"
  shows "b0 < 128 \<and> cp = b0 \<and> n = 1"
  using utf8_decode_one_shape [OF assms(1)]
proof (elim disjE conjE exE)
  assume "b0 < 0x80" "cp = b0" "n = 1"
  then show ?thesis by simp
next
  fix b1 assume "0xC2 \<le> b0" "b0 < 0xE0" "cp = (b0 mod 32) * 64 + b1 mod 64"
  with two_byte_big [of b0 b1] assms(2) show ?thesis by simp
next
  fix b1 b2 assume "0xE0 \<le> b0" "b0 < 0xF0" "second_ok b0 b1"
    "cp = (b0 mod 16) * 4096 + (b1 mod 64) * 64 + b2 mod 64"
  with three_byte_big [of b0 b1 b2] assms(2) show ?thesis by simp
next
  fix b1 b2 b3 assume "0xF0 \<le> b0" "b0 < 0xF5" "second_ok b0 b1"
    "cp = (b0 mod 8) * 262144 + (b1 mod 64) * 4096 + (b2 mod 64) * 64 + b3 mod 64"
  with four_byte_big [of b0 b1 b2 b3] assms(2) show ?thesis by simp
qed

lemma ascii_decode_identity:
  "\<forall>c \<in> set (utf8_decode_replace bs). c < 128 \<Longrightarrow> utf8_decode_replace bs = bs"
proof (induction bs rule: utf8_decode_replace.induct)
  case (1 bs)
  show ?case
  proof (cases bs)
    case Nil
    then show ?thesis by (simp add: utf8_decode_replace_Nil)
  next
    case (Cons b0 rest)
    then have ne: "bs \<noteq> []" by simp
    obtain r n where one: "utf8_decode_one bs = (r, n)" by (cases "utf8_decode_one bs")
    show ?thesis
    proof (cases r)
      case None
      with ne one have "utf8_decode_replace bs = 0xFFFD # utf8_decode_replace (drop n bs)"
        by (simp add: utf8_decode_replace.simps [of bs])
      with "1.prems" show ?thesis by simp
    next
      case (Some cp)
      with ne one have eq: "utf8_decode_replace bs = cp # utf8_decode_replace (drop n bs)"
        by (simp add: utf8_decode_replace.simps [of bs])
      with "1.prems" have cp: "cp < 128"
        and rest_ascii: "\<forall>c \<in> set (utf8_decode_replace (drop n bs)). c < 128" by simp_all
      from one Some Cons have "utf8_decode_one (b0 # rest) = (Some cp, n)" by simp
      from utf8_decode_one_ascii [OF this cp] have b0: "cp = b0" "n = 1" by simp_all
      have "utf8_decode_replace (drop n bs) = drop n bs"
        using rest_ascii by (rule "1.IH"(2) [OF ne one [symmetric] Some])
      with eq b0 Cons show ?thesis by simp
    qed
  qed
qed

lemma decode_ascii_bytes:
  "\<forall>c \<in> set bs. c < 128 \<Longrightarrow> utf8_decode_replace bs = bs"
proof (induction bs)
  case Nil
  show ?case by (simp add: utf8_decode_replace_Nil)
next
  case (Cons b bs)
  then have "utf8_decode_replace (b # bs) = b # utf8_decode_replace bs"
    by (simp add: utf8_decode_replace.simps [of "b # bs"])
  with Cons show ?case by simp
qed

text \<open>
  The comparison \<open>name == "target_features"\<close> on the decoded name holds exactly when the
  sliced name bytes are the fifteen ASCII bytes of \<open>target_features\<close>: decoding with
  replacement maps no other byte string to that text.
\<close>

theorem name_match_is_byte_match:
  "utf8_decode_replace (map unat bs) = target_features \<longleftrightarrow> map unat bs = target_features"
proof
  assume dec: "utf8_decode_replace (map unat bs) = target_features"
  then have "\<forall>c \<in> set (utf8_decode_replace (map unat bs)). c < 128"
    using target_features_ascii by simp
  then have "utf8_decode_replace (map unat bs) = map unat bs" by (rule ascii_decode_identity)
  with dec show "map unat bs = target_features" by simp
next
  assume eq: "map unat bs = target_features"
  then have "\<forall>c \<in> set (map unat bs). c < 128"
    using target_features_ascii by simp
  then have "utf8_decode_replace (map unat bs) = map unat bs" by (rule decode_ascii_bytes)
  with eq show "utf8_decode_replace (map unat bs) = target_features" by simp
qed

end
